theory Spec2Isabelle
  imports Main "HOL-Library.Sublist" "HOL-Library.AList"
begin

section \<open>Bytes, strings and the C library calls the transport uses\<close>

text \<open>
  A \<^verbatim>\<open>std::string\<close> is a list of bytes (\<^typ>\<open>string\<close>). \<^verbatim>\<open>std::size_t\<close> and
  \<^verbatim>\<open>unsigned long long\<close> are 64-bit (LP64); they are modelled as \<^typ>\<open>nat\<close> with the
  bounds and the wrap-around written out where the code can reach them.
\<close>

abbreviation CR :: char where "CR \<equiv> CHR 0x0D"
abbreviation LF :: char where "LF \<equiv> CHR 0x0A"

definition SIZE_MAX :: nat where
  "SIZE_MAX = 2 ^ 64 - 1"

definition ULLONG_MAX :: nat where
  "ULLONG_MAX = 2 ^ 64 - 1"

text \<open>\<^verbatim>\<open>std::isspace\<close> and \<^verbatim>\<open>std::tolower\<close> on an \<^verbatim>\<open>unsigned char\<close>, in the C locale.\<close>

definition isspace :: "char \<Rightarrow> bool" where
  "isspace c = (c = CHR 0x20 \<or> c = CHR 0x09 \<or> c = LF \<or> c = CHR 0x0B \<or> c = CHR 0x0C \<or> c = CR)"

definition tolower :: "char \<Rightarrow> char" where
  "tolower c = (let n = (of_char c :: nat) in if 65 \<le> n \<and> n \<le> 90 then char_of (n + 32) else c)"

definition isdigit :: "char \<Rightarrow> bool" where
  "isdigit c = (48 \<le> (of_char c :: nat) \<and> (of_char c :: nat) \<le> 57)"

definition digit_val :: "char \<Rightarrow> nat" where
  "digit_val c = of_char c - 48"

definition digit_char :: "nat \<Rightarrow> char" where
  "digit_char d = char_of (48 + d)"

text \<open>\<^verbatim>\<open>std::to_string\<close> of an unsigned value: its decimal digits, no leading zero.\<close>

fun to_string :: "nat \<Rightarrow> string" where
  "to_string n = (if n < 10 then [digit_char n] else to_string (n div 10) @ [digit_char (n mod 10)])"

declare to_string.simps [simp del]

text \<open>\<^verbatim>\<open>std::to_string\<close> of an \<^verbatim>\<open>int64_t\<close>.\<close>

definition to_string_int :: "int \<Rightarrow> string" where
  "to_string_int i = (if i < 0 then CHR ''-'' # to_string (nat (- i)) else to_string (nat i))"

text \<open>
  \<^verbatim>\<open>std::stoull(value)\<close> in base 10, as \<^verbatim>\<open>strtoull\<close> reads it: leading white space is
  skipped, one sign is accepted, the longest run of digits is converted and the rest of
  the string is ignored. No digit throws \<^verbatim>\<open>std::invalid_argument\<close>, a value above
  \<^verbatim>\<open>ULLONG_MAX\<close> throws \<^verbatim>\<open>std::out_of_range\<close> (both are \<open>None\<close>: every caller catches
  them with \<^verbatim>\<open>catch (...)\<close>); a minus sign negates the value in the unsigned type.
\<close>

definition decimal_value :: "string \<Rightarrow> nat" where
  "decimal_value ds = foldl (\<lambda>a c. 10 * a + digit_val c) 0 ds"

definition stoull :: "string \<Rightarrow> nat option" where
  "stoull s =
     (let t = dropWhile isspace s;
          neg = (case t of [] \<Rightarrow> False | c # r \<Rightarrow> c = CHR ''-'');
          u = (case t of [] \<Rightarrow> [] | c # r \<Rightarrow> if c = CHR ''-'' \<or> c = CHR ''+'' then r else t);
          ds = takeWhile isdigit u;
          v = decimal_value ds
      in if ds = [] then None
         else if v > ULLONG_MAX then None
         else Some (if neg then (2 ^ 64 - v) mod 2 ^ 64 else v))"

text \<open>
  \<^verbatim>\<open>buf.find(needle, pos)\<close>: the least index \<open>i \<ge> pos\<close> at which \<open>needle\<close> starts, or
  \<^verbatim>\<open>npos\<close> (\<open>None\<close>).
\<close>

fun find_first :: "string \<Rightarrow> string \<Rightarrow> nat option" where
  "find_first needle [] = (if needle = [] then Some 0 else None)"
| "find_first needle (c # cs) =
     (if prefix needle (c # cs) then Some 0 else map_option Suc (find_first needle cs))"

definition find_str :: "string \<Rightarrow> string \<Rightarrow> nat \<Rightarrow> nat option" where
  "find_str buf needle pos =
     (if pos > length buf then None
      else map_option (\<lambda>i. pos + i) (find_first needle (drop pos buf)))"

text \<open>\<^verbatim>\<open>s.substr(pos, n)\<close> for \<open>pos \<le> length s\<close> (every call of the code is in range).\<close>

definition substr :: "string \<Rightarrow> nat \<Rightarrow> nat \<Rightarrow> string" where
  "substr s pos n = take n (drop pos s)"

section \<open>The frame codec\<close>

definition MaxContentLength :: nat where
  "MaxContentLength = 1024 * 1024"

abbreviation sep :: string where
  "sep \<equiv> [CR, LF, CR, LF]"

abbreviation crlf :: string where
  "crlf \<equiv> [CR, LF]"

text \<open>\<^verbatim>\<open>makeFrame\<close>: the header line, the blank line, the payload.\<close>

definition makeFrame :: "string \<Rightarrow> string" where
  "makeFrame payload = (''Content-Length: '' @ to_string (length payload) @ sep) @ payload"

text \<open>
  One header line of \<^verbatim>\<open>extractFrame\<close>'s loop body: what the line does to
  \<^verbatim>\<open>contentLength\<close> and \<^verbatim>\<open>haveLength\<close>. A \<^verbatim>\<open>Content-Length\<close> above the cap leaves the
  function at once; a value \<^verbatim>\<open>stoull\<close> rejects is only logged.
\<close>

datatype line_result = LineTooLarge | LineLength nat | LineIgnored

definition parse_header_line :: "string \<Rightarrow> line_result" where
  "parse_header_line line =
     (case find_str line '':'' 0 of
        None \<Rightarrow> LineIgnored
      | Some colon \<Rightarrow>
          (let name = map tolower (substr line 0 colon);
               val = dropWhile isspace (drop (colon + 1) line)
           in if name = ''content-length'' then
                (case stoull val of
                   None \<Rightarrow> LineIgnored
                 | Some v64 \<Rightarrow>
                     if v64 > MaxContentLength \<or> v64 > SIZE_MAX then LineTooLarge
                     else LineLength v64)
              else LineIgnored))"

lemma find_str_ge: "find_str buf needle pos = Some eol \<Longrightarrow> pos \<le> eol"
  by (auto simp: find_str_def split: if_splits)

text \<open>
  The \<^verbatim>\<open>while (pos < headerEnd)\<close> loop over the header region. \<open>HeaderTooLarge\<close> is the
  early return from inside the loop; \<open>HeaderScanned haveLength contentLength\<close> is the state
  the loop ends in.
\<close>

datatype header_scan = HeaderTooLarge | HeaderScanned bool nat

function scan_headers :: "string \<Rightarrow> nat \<Rightarrow> nat \<Rightarrow> nat \<Rightarrow> bool \<Rightarrow> header_scan" where
  "scan_headers buf headerEnd pos contentLength haveLength =
     (if pos < headerEnd then
        (case find_str buf crlf pos of
           None \<Rightarrow> HeaderScanned haveLength contentLength
         | Some eol \<Rightarrow>
             if eol > headerEnd then HeaderScanned haveLength contentLength
             else
               (case parse_header_line (substr buf pos (eol - pos)) of
                  LineTooLarge \<Rightarrow> HeaderTooLarge
                | LineLength v \<Rightarrow> scan_headers buf headerEnd (eol + 2) v True
                | LineIgnored \<Rightarrow> scan_headers buf headerEnd (eol + 2) contentLength haveLength))
      else HeaderScanned haveLength contentLength)"
  by pat_completeness auto
termination
  by (relation "measure (\<lambda>(buf, headerEnd, pos, contentLength, haveLength). headerEnd - pos)")
     (auto dest: find_str_ge)

declare scan_headers.simps [simp del]

section \<open>JSON-RPC envelopes\<close>

text \<open>
  Modelled from the spec: the envelope types, \<^verbatim>\<open>CreateErrorObject\<close> and
  \<^verbatim>\<open>JSONRPCErrorCodes::InternalError\<close> are declared in \<^verbatim>\<open>mcp/JSONRPCTypes.h\<close>, which is
  not among the sources. An id is a string or a signed 64-bit integer (or neither, when the
  caller set none); a response carries an id and a result or an error; the error code of
  an internal error is \<open>-32603\<close>. Payloads (\<open>result\<close>, \<open>params\<close>, \<open>data\<close>) stay opaque
  JSON text.
\<close>

datatype JSONRPCId = IdString string | IdInt int | IdNull

datatype JSONRPCError =
  ErrorObject (error_code: int) (error_message: string) (error_data: "string option")

datatype JSONRPCResponse =
  Response (response_id: JSONRPCId) (response_result: "string option")
    (response_error: "JSONRPCError option")

datatype JSONRPCRequest =
  Request (request_id: JSONRPCId) (request_method: string) (request_params: "string option")

datatype JSONRPCNotification =
  Notification (notification_method: string) (notification_params: "string option")

definition InternalError :: int where
  "InternalError = - 32603"

definition CreateErrorObject :: "int \<Rightarrow> string \<Rightarrow> string option \<Rightarrow> JSONRPCError" where
  "CreateErrorObject c m d = ErrorObject c m d"

text \<open>
  \<^verbatim>\<open>Serialize\<close> and \<^verbatim>\<open>Deserialize\<close> of the envelopes live in the same missing header; the
  transport's functions take them as a parameter and every theorem holds for any choice.
\<close>

record json_codec =
  Serialize_request :: "JSONRPCRequest \<Rightarrow> string"
  Deserialize_request :: "string \<Rightarrow> JSONRPCRequest option"
  Deserialize_response :: "string \<Rightarrow> JSONRPCResponse option"

section \<open>The transport's state\<close>

text \<open>
  The fields of \<^verbatim>\<open>StdioTransport::Impl\<close> that the modelled functions read or write, under
  their own names. A handler is a flag (is one registered?) and the list of its calls so
  far. A \<^verbatim>\<open>std::promise\<close> is a handle (a number); \<open>set_values\<close> lists every
  \<^verbatim>\<open>set_value\<close> call with its handle, \<open>broken_promises\<close> the promises destroyed without a
  value, \<open>next_promise\<close> the next fresh handle. The two \<^verbatim>\<open>unordered_map\<close>s are association
  lists with one entry per key. \<open>received\<close> is the trace of \<^verbatim>\<open>processMessage\<close>'s first
  line (\<^verbatim>\<open>LOG_DEBUG("Received message: {}", message)\<close>); \<open>wake_writes\<close> counts the writes
  to the eventfd (the Linux build), \<open>cvWrite_notifies\<close> and \<open>cvTimeout_notifies\<close> the
  \<^verbatim>\<open>notify_one\<close> and \<^verbatim>\<open>notify_all\<close> calls on the two condition variables.
  \<open>writer_frame\<close> is the local \<^verbatim>\<open>frame\<close> of the writer thread between
  \<^verbatim>\<open>dequeueNextFrame\<close> and \<^verbatim>\<open>accountWritten\<close>. Time points are integers (nanoseconds
  of the steady clock) and \<open>requestTimeout\<close> is in milliseconds. Where the code walks an \<^verbatim>\<open>unordered_map\<close>, whose order is unspecified, the
  model walks the list in its order.
\<close>

datatype cv_notify = NotifyOne | NotifyAll

record Impl =
  connected :: bool
  errorHandler :: bool
  errorHandler_calls :: "string list"
  notificationHandler :: bool
  notificationHandler_calls :: "JSONRPCNotification list"
  requestHandler :: bool
  handler_threads :: "JSONRPCRequest list"
  received :: "string list"
  pendingRequests :: "(string \<times> nat) list"
  requestDeadlines :: "(string \<times> int) list"
  requestCounter :: nat
  requestTimeout :: int
  next_promise :: nat
  set_values :: "(nat \<times> JSONRPCResponse) list"
  broken_promises :: "nat list"
  wakeEventFd :: int
  wake_writes :: nat
  cvWrite_notifies :: "cv_notify list"
  cvTimeout_notifies :: "cv_notify list"
  writeQueue :: "string list"
  queuedBytes :: nat
  writeQueueMaxBytes :: nat
  writer_frame :: "string option"

text \<open>
  The state after the constructor, from the member initialisers: not connected, no
  handler, empty maps and queue, a 30 s request timeout (the override from the environment
  is left out) and a 2 MiB write cap. \<open>fd\<close> is what \<^verbatim>\<open>eventfd\<close> returned (negative when
  it failed).
\<close>

definition new_Impl :: "int \<Rightarrow> Impl" where
  "new_Impl fd =
     \<lparr>connected = False, errorHandler = False, errorHandler_calls = [],
      notificationHandler = False, notificationHandler_calls = [],
      requestHandler = False, handler_threads = [], received = [],
      pendingRequests = [], requestDeadlines = [], requestCounter = 0,
      requestTimeout = 30000, next_promise = 0, set_values = [], broken_promises = [],
      wakeEventFd = fd, wake_writes = 0, cvWrite_notifies = [], cvTimeout_notifies = [],
      writeQueue = [], queuedBytes = 0, writeQueueMaxBytes = 2 * 1024 * 1024,
      writer_frame = None\<rparr>"

text \<open>\<^verbatim>\<open>if (errorHandler) { errorHandler(msg); }\<close>\<close>

definition call_errorHandler :: "string \<Rightarrow> Impl \<Rightarrow> Impl" where
  "call_errorHandler msg s =
     (if errorHandler s then s\<lparr>errorHandler_calls := errorHandler_calls s @ [msg]\<rparr> else s)"

section \<open>Extracting frames from the rolling buffer\<close>

text \<open>
  \<^verbatim>\<open>extractFrame(buf)\<close>: the optional payload, the buffer afterwards and the state
  afterwards. \<^verbatim>\<open>buf.erase(0, n)\<close> is \<open>drop n buf\<close>.
\<close>

definition extractFrame :: "string \<Rightarrow> Impl \<Rightarrow> string option \<times> string \<times> Impl" where
  "extractFrame buf s =
     (case find_str buf sep 0 of
        None \<Rightarrow> (None, buf, s)
      | Some headerEnd \<Rightarrow>
          (case scan_headers buf headerEnd 0 0 False of
             HeaderTooLarge \<Rightarrow>
               (None, drop (headerEnd + length sep) buf,
                call_errorHandler ''StdioTransport: body too large'' s)
           | HeaderScanned haveLength contentLength \<Rightarrow>
               if \<not> haveLength then (None, drop (headerEnd + length sep) buf, s)
               else
                 (let headerAndSep = headerEnd + length sep in
                  if contentLength > SIZE_MAX - headerAndSep
                  then (None, drop (headerEnd + length sep) buf, s)
                  else
                    (let frameTotal = headerAndSep + contentLength in
                     if length buf < frameTotal then (None, buf, s)
                     else (Some (substr buf (headerEnd + length sep) contentLength),
                           drop frameTotal buf, s)))))"

section \<open>Dispatching a received message\<close>

abbreviation DQ :: char where "DQ \<equiv> CHR 0x22"

text \<open>\<^verbatim>\<open>handleResponse\<close>: complete the pending request of the response's id, if any.\<close>

definition id_key :: "JSONRPCId \<Rightarrow> string" where
  "id_key i = (case i of IdString x \<Rightarrow> x | IdInt n \<Rightarrow> to_string_int n | IdNull \<Rightarrow> [])"

definition handleResponse :: "JSONRPCResponse \<Rightarrow> Impl \<Rightarrow> Impl" where
  "handleResponse response s =
     (let idStr = id_key (response_id response);
          s1 = (case map_of (pendingRequests s) idStr of
                  Some prom \<Rightarrow>
                    s\<lparr>set_values := set_values s @ [(prom, response)],
                      pendingRequests := AList.delete idStr (pendingRequests s)\<rparr>
                | None \<Rightarrow> s)
      in s1\<lparr>requestDeadlines := AList.delete idStr (requestDeadlines s1)\<rparr>)"

text \<open>\<^verbatim>\<open>handleNotification\<close>: hand the notification to the registered handler.\<close>

definition handleNotification :: "JSONRPCNotification \<Rightarrow> Impl \<Rightarrow> Impl" where
  "handleNotification notification s =
     (if notificationHandler s
      then s\<lparr>notificationHandler_calls := notificationHandler_calls s @ [notification]\<rparr>
      else s)"

text \<open>
  \<^verbatim>\<open>processMessage\<close>. A request goes to a detached thread (recorded in
  \<open>handler_threads\<close>; the thread's own work is not part of this function); anything else
  is tried as a response; what is neither is logged and dropped.
\<close>

definition processMessage :: "json_codec \<Rightarrow> string \<Rightarrow> Impl \<Rightarrow> Impl" where
  "processMessage P message s =
     (let s1 = s\<lparr>received := received s @ [message]\<rparr>;
          request =
            (if find_str message (DQ # ''method'' @ [DQ]) 0 \<noteq> None
                \<and> find_str message (DQ # ''id'' @ [DQ]) 0 \<noteq> None
             then Deserialize_request P message else None);
          fallthrough =
            (case Deserialize_response P message of
               Some response \<Rightarrow> handleResponse response s1
             | None \<Rightarrow> s1)
      in case request of
           Some req \<Rightarrow>
             if requestHandler s1 then s1\<lparr>handler_threads := handler_threads s1 @ [req]\<rparr>
             else fallthrough
         | None \<Rightarrow> fallthrough)"

lemma extractFrame_shorter:
  "extractFrame buf s = (Some framed, buf', s') \<Longrightarrow> length buf' < length buf"
  by (auto simp: extractFrame_def Let_def split: option.splits header_scan.splits if_splits)

text \<open>
  \<^verbatim>\<open>drainFrames\<close>: extract and dispatch until the extractor returns nothing (or the
  transport is no longer connected). The update of \<^verbatim>\<open>lastReadTs\<close> is left out. The
  recursion ends because every extracted frame shortens the buffer.
\<close>

function drainFrames :: "json_codec \<Rightarrow> string \<Rightarrow> Impl \<Rightarrow> string \<times> Impl" where
  "drainFrames P buffer s =
     (if connected s then
        (case extractFrame buffer s of
           (None, buffer', s') \<Rightarrow> (buffer', s')
         | (Some framed, buffer', s') \<Rightarrow> drainFrames P buffer' (processMessage P framed s'))
      else (buffer, s))"
  by pat_completeness auto
termination
  by (relation "measure (\<lambda>(P, buffer, s). length buffer)")
     (auto dest: extractFrame_shorter [OF sym])

declare drainFrames.simps [simp del]

text \<open>
  The data path of the read loop, for the chunks that \<^verbatim>\<open>read\<close> returns one after the
  other: \<^verbatim>\<open>buffer.append(tmp.data(), tmp.data() + n); drainFrames(buffer);\<close>
\<close>

fun feed :: "json_codec \<Rightarrow> string list \<Rightarrow> string \<times> Impl \<Rightarrow> string \<times> Impl" where
  "feed P [] (buffer, s) = (buffer, s)"
| "feed P (chunk # chunks) (buffer, s) = feed P chunks (drainFrames P (buffer @ chunk) s)"

section \<open>The bounded write queue\<close>

text \<open>
  Signalling the wakeup primitive, as the Linux build does it:
  \<^verbatim>\<open>if (wakeEventFd >= 0) { ... ::write(wakeEventFd, &one, sizeof(one)) ... }\<close>. The write is
  retried on \<^verbatim>\<open>EINTR\<close>; any other failure is logged or ignored.
\<close>

definition signal_wakeup :: "Impl \<Rightarrow> Impl" where
  "signal_wakeup s = (if wakeEventFd s \<ge> 0 then s\<lparr>wake_writes := wake_writes s + 1\<rparr> else s)"

text \<open>
  \<^verbatim>\<open>enqueueFrame\<close>. The sum \<^verbatim>\<open>queuedBytes + frame.size()\<close> is a \<^verbatim>\<open>size_t\<close> sum and wraps at
  \<open>2 ^ 64\<close>.
\<close>

definition enqueueFrame :: "string \<Rightarrow> Impl \<Rightarrow> bool \<times> Impl" where
  "enqueueFrame payload s =
     (let frame = makeFrame payload in
      if (queuedBytes s + length frame) mod 2 ^ 64 > writeQueueMaxBytes s then
        (let s1 = call_errorHandler ''StdioTransport: write queue overflow'' s;
             s2 = s1\<lparr>connected := False\<rparr>;
             s3 = signal_wakeup s2
         in (False, s3\<lparr>cvWrite_notifies := cvWrite_notifies s3 @ [NotifyAll]\<rparr>))
      else
        (True, s\<lparr>queuedBytes := (queuedBytes s + length frame) mod 2 ^ 64,
                 writeQueue := writeQueue s @ [frame],
                 cvWrite_notifies := cvWrite_notifies s @ [NotifyOne]\<rparr>))"

text \<open>
  \<^verbatim>\<open>dequeueNextFrame\<close>. \<open>None\<close> is the wait on \<^verbatim>\<open>cvWrite\<close> that does not return in this
  state (connected, nothing queued); otherwise the returned flag, the frame handed to the
  caller and the state.
\<close>

definition dequeueNextFrame :: "Impl \<Rightarrow> (bool \<times> string \<times> Impl) option" where
  "dequeueNextFrame s =
     (if \<not> (\<not> connected s \<or> writeQueue s \<noteq> []) then None
      else if \<not> connected s \<and> writeQueue s = [] then Some (False, [], s)
      else
        (case writeQueue s of
           front # rest \<Rightarrow> Some (True, front, s\<lparr>writeQueue := rest\<rparr>)
         | [] \<Rightarrow> Some (True, [], s)))"

definition accountWritten :: "nat \<Rightarrow> Impl \<Rightarrow> Impl" where
  "accountWritten frameSize s =
     (if queuedBytes s \<ge> frameSize then s\<lparr>queuedBytes := queuedBytes s - frameSize\<rparr>
      else s\<lparr>queuedBytes := 0\<rparr>)"

text \<open>
  The operations on the queue as steps of one trace. \<open>Enqueue\<close> is a call of
  \<^verbatim>\<open>enqueueFrame\<close> by any producer. The writer thread's loop body is two steps:
  \<open>WriterDequeue\<close> (its call of \<^verbatim>\<open>dequeueNextFrame\<close>, taken when it holds no frame; an
  empty frame is skipped by \<^verbatim>\<open>continue\<close>) and \<open>WriterAccount\<close> (its call of
  \<^verbatim>\<open>accountWritten(frame.size())\<close> once the frame is written or given up). \<open>Disconnect\<close>
  is any other thread clearing \<^verbatim>\<open>connected\<close>.
\<close>

datatype queue_event = Enqueue string | WriterDequeue | WriterAccount | Disconnect

fun queue_step :: "queue_event \<Rightarrow> Impl \<Rightarrow> Impl" where
  "queue_step (Enqueue payload) s = snd (enqueueFrame payload s)"
| "queue_step WriterDequeue s =
     (case writer_frame s of
        Some frame \<Rightarrow> s
      | None \<Rightarrow>
          (case dequeueNextFrame s of
             None \<Rightarrow> s
           | Some (False, frame, s') \<Rightarrow> s'
           | Some (True, frame, s') \<Rightarrow>
               if frame = [] then s' else s'\<lparr>writer_frame := Some frame\<rparr>))"
| "queue_step WriterAccount s =
     (case writer_frame s of
        None \<Rightarrow> s
      | Some frame \<Rightarrow> (accountWritten (length frame) s)\<lparr>writer_frame := None\<rparr>)"
| "queue_step Disconnect s = s\<lparr>connected := False\<rparr>"

definition queue_run :: "queue_event list \<Rightarrow> Impl \<Rightarrow> Impl" where
  "queue_run evs s = fold queue_step evs s"

section \<open>Requests, deadlines and completion\<close>

text \<open>
  Time. A \<^verbatim>\<open>steady_clock::time_point\<close> counts nanoseconds and \<^verbatim>\<open>requestTimeout\<close> counts
  milliseconds, each in a signed 64-bit integer. \<^verbatim>\<open>steady_clock::now() + requestTimeout\<close>
  first converts the timeout to nanoseconds (times 1000000) and then adds; both steps
  overflow for a large timeout. The overflow is undefined in C++; the model takes what the
  two's complement arithmetic of the target gives, \<open>wrap64\<close>.
\<close>

definition wrap64 :: "int \<Rightarrow> int" where
  "wrap64 x = (x + 2 ^ 63) mod 2 ^ 64 - 2 ^ 63"

definition request_deadline :: "int \<Rightarrow> Impl \<Rightarrow> int" where
  "request_deadline now s = wrap64 (now + wrap64 (requestTimeout s * 1000000))"

text \<open>
  \<^verbatim>\<open>SetRequestTimeoutMs\<close>: zero stores \<^verbatim>\<open>std::chrono::milliseconds::max()\<close>, any other
  \<^verbatim>\<open>uint64_t\<close> is converted to the signed count.
\<close>

definition SetRequestTimeoutMs :: "nat \<Rightarrow> Impl \<Rightarrow> Impl" where
  "SetRequestTimeoutMs timeoutMs s =
     (if timeoutMs = 0 then s\<lparr>requestTimeout := 2 ^ 63 - 1\<rparr>
      else s\<lparr>requestTimeout := wrap64 (int timeoutMs)\<rparr>)"

text \<open>\<^verbatim>\<open>generateRequestId\<close>: the counter is an \<^verbatim>\<open>unsigned int\<close>, pre-incremented.\<close>

definition generateRequestId :: "Impl \<Rightarrow> string \<times> Impl" where
  "generateRequestId s =
     (let n = (requestCounter s + 1) mod 2 ^ 32
      in (''req-'' @ to_string n, s\<lparr>requestCounter := n\<rparr>))"

definition error_response :: "string \<Rightarrow> string \<Rightarrow> JSONRPCResponse" where
  "error_response idStr msg =
     Response (IdString idStr) None (Some (CreateErrorObject InternalError msg None))"

text \<open>
  \<^verbatim>\<open>StdioTransport::SendRequest\<close> at time \<open>now\<close>: the handle of the promise behind the
  returned future, and the state. The function tests \<^verbatim>\<open>connected\<close> once, on entry; its two
  branches are \<open>SendRequest_disconnected\<close> (the early return) and \<open>SendRequest_connected\<close>
  (the rest of the body). \<^verbatim>\<open>pendingRequests[requestId] = std::move(promise)\<close> assigns over
  the promise an earlier request stored under the same key; that promise is destroyed
  without a value.
\<close>

definition SendRequest_disconnected :: "Impl \<Rightarrow> nat \<times> Impl" where
  "SendRequest_disconnected s =
     (let prom = next_promise s;
          s1 = s\<lparr>next_promise := prom + 1\<rparr>;
          (rid, s2) = generateRequestId s1;
          resp = error_response rid ''Transport not connected''
      in (prom, s2\<lparr>set_values := set_values s2 @ [(prom, resp)]\<rparr>))"

definition SendRequest_connected ::
  "json_codec \<Rightarrow> int \<Rightarrow> JSONRPCRequest \<Rightarrow> Impl \<Rightarrow> nat \<times> Impl" where
  "SendRequest_connected P now request s =
     (let caller = (case request_id request of
                      IdString x \<Rightarrow> if x \<noteq> [] then Some x else None
                    | IdInt n \<Rightarrow> Some (to_string_int n)
                    | IdNull \<Rightarrow> None);
          (requestId, request1, s1) =
            (case caller of
               Some x \<Rightarrow> (x, request, s)
             | None \<Rightarrow>
                 (let (rid, s') = generateRequestId s
                  in (rid, Request (IdString rid) (request_method request)
                             (request_params request), s')));
          prom = next_promise s1;
          s2 = s1\<lparr>next_promise := prom + 1,
                  broken_promises :=
                    (case map_of (pendingRequests s1) requestId of
                       Some old \<Rightarrow> broken_promises s1 @ [old]
                     | None \<Rightarrow> broken_promises s1),
                  pendingRequests := AList.update requestId prom (pendingRequests s1),
                  requestDeadlines :=
                    AList.update requestId (request_deadline now s1) (requestDeadlines s1),
                  cvTimeout_notifies := cvTimeout_notifies s1 @ [NotifyAll]\<rparr>;
          serialized = Serialize_request P request1
      in (prom, snd (enqueueFrame serialized s2)))"

definition SendRequest :: "json_codec \<Rightarrow> int \<Rightarrow> JSONRPCRequest \<Rightarrow> Impl \<Rightarrow> nat \<times> Impl" where
  "SendRequest P now request s =
     (if \<not> connected s then SendRequest_disconnected s
      else SendRequest_connected P now request s)"

text \<open>
  The timeout thread after a wake at time \<open>now\<close>: nothing when the transport is no longer
  connected (the thread leaves its loop), otherwise every request whose deadline has passed
  is completed with a timeout error and erased from both maps.
\<close>

definition expire :: "string \<Rightarrow> Impl \<Rightarrow> Impl" where
  "expire idStr s =
     (let s1 = (case map_of (pendingRequests s) idStr of
                  Some prom \<Rightarrow>
                    s\<lparr>set_values := set_values s @ [(prom, error_response idStr ''Request timeout'')],
                      pendingRequests := AList.delete idStr (pendingRequests s)\<rparr>
                | None \<Rightarrow> s)
      in s1\<lparr>requestDeadlines := AList.delete idStr (requestDeadlines s1)\<rparr>)"

definition consumeExpired :: "int \<Rightarrow> Impl \<Rightarrow> Impl" where
  "consumeExpired now s =
     (if \<not> connected s then s
      else
        (let expired = map fst (filter (\<lambda>kv. snd kv \<le> now) (requestDeadlines s))
         in fold expire expired s))"

text \<open>
  \<^verbatim>\<open>StdioTransport::Close\<close>, without the joining and detaching of the three threads: clear
  \<^verbatim>\<open>connected\<close>, wake the waiting threads, then complete every pending request with
  \<open>Transport closed\<close> and clear both maps.
\<close>

definition Close :: "Impl \<Rightarrow> Impl" where
  "Close s =
     (let s1 = s\<lparr>connected := False,
                 cvTimeout_notifies := cvTimeout_notifies s @ [NotifyAll]\<rparr>;
          s2 = signal_wakeup s1;
          s3 = s2\<lparr>set_values := set_values s2 @
                    map (\<lambda>(idStr, prom). (prom, error_response idStr ''Transport closed''))
                      (pendingRequests s2),
                  pendingRequests := [],
                  requestDeadlines := []\<rparr>
      in s3\<lparr>cvTimeout_notifies := cvTimeout_notifies s3 @ [NotifyAll]\<rparr>)"

text \<open>\<^verbatim>\<open>StdioTransport::Start\<close>, without the spawning of the threads.\<close>

definition Start :: "Impl \<Rightarrow> Impl" where
  "Start s = s\<lparr>connected := True\<rparr>"

text \<open>
  The operations on the correlation table as steps of one trace: a call of
  \<^verbatim>\<open>SendRequest\<close>, the reader dispatching one extracted message, the timeout thread
  waking, \<^verbatim>\<open>Close\<close>, and \<^verbatim>\<open>SetRequestTimeoutMs\<close>. Each runs under \<^verbatim>\<open>requestMutex\<close>
  where it touches the maps.
  \<^verbatim>\<open>SendRequest\<close> reads \<^verbatim>\<open>connected\<close> before it takes the mutex, so another thread may
  clear the flag in between: \<open>SendLate\<close> is the rest of such a call, the connected branch
  run whatever the flag says by then.
\<close>

datatype request_event =
    Send int JSONRPCRequest
  | SendLate int JSONRPCRequest
  | Receive string
  | TimeoutWake int
  | CloseTransport
  | SetTimeout nat

fun request_step :: "json_codec \<Rightarrow> request_event \<Rightarrow> Impl \<Rightarrow> Impl" where
  "request_step P (Send now request) s = snd (SendRequest P now request s)"
| "request_step P (SendLate now request) s = snd (SendRequest_connected P now request s)"
| "request_step P (Receive message) s = processMessage P message s"
| "request_step P (TimeoutWake now) s = consumeExpired now s"
| "request_step P CloseTransport s = Close s"
| "request_step P (SetTimeout timeoutMs) s = SetRequestTimeoutMs timeoutMs s"

definition request_run :: "json_codec \<Rightarrow> request_event list \<Rightarrow> Impl \<Rightarrow> Impl" where
  "request_run P evs s = fold (request_step P) evs s"

section \<open>The stream reader\<close>

text \<open>
  \<^verbatim>\<open>readFrame(std::istream& in)\<close>, the reader that takes one frame from a stream with
  \<^verbatim>\<open>std::getline\<close>. Nothing in the file calls it: the reader thread uses
  \<^verbatim>\<open>extractFrame\<close>. The stream is its unread input up to end of file.

  \<^verbatim>\<open>std::getline(in, line)\<close>: \<open>None\<close> when nothing is left to extract (the stream
  fails); otherwise the line without its newline, the unread rest and whether the stream is
  still good (it is not when the input ended before a newline).
\<close>

definition getline :: "string \<Rightarrow> (string \<times> string \<times> bool) option" where
  "getline inp =
     (if inp = [] then None
      else
        (let line = takeWhile (\<lambda>c. c \<noteq> LF) inp
         in case drop (length line) inp of
              [] \<Rightarrow> Some (line, [], False)
            | nl # rest \<Rightarrow> Some (line, rest, True)))"

lemma getline_shorter:
  assumes "getline inp = Some (line, rest, good)"
  shows "length rest < length inp"
proof -
  let ?l = "takeWhile (\<lambda>c. c \<noteq> LF) inp"
  from assms have ne: "inp \<noteq> []"
    by (auto simp: getline_def split: if_splits)
  with assms have "rest = [] \<or> (\<exists>nl. drop (length ?l) inp = nl # rest)"
    by (auto simp: getline_def Let_def split: list.splits)
  then show ?thesis
  proof
    assume "rest = []"
    with ne show ?thesis by simp
  next
    assume "\<exists>nl. drop (length ?l) inp = nl # rest"
    then obtain nl where d: "drop (length ?l) inp = nl # rest" ..
    have "length (drop (length ?l) inp) \<le> length inp" by simp
    with d show ?thesis by simp
  qed
qed

text \<open>
  The header loop of \<^verbatim>\<open>readFrame\<close>. \<open>HeadersTooLarge\<close> and \<open>HeadersInvalid\<close> are the two
  \<^verbatim>\<open>return std::nullopt\<close> inside the loop (a too large and an unparsable
  \<^verbatim>\<open>Content-Length\<close>); \<open>HeadersEnd good haveLength contentLength rest\<close> is the state the
  loop ends in.
\<close>

datatype read_headers =
    HeadersTooLarge string
  | HeadersInvalid string
  | HeadersEnd bool bool nat string

function readFrame_headers :: "string \<Rightarrow> nat \<Rightarrow> bool \<Rightarrow> read_headers" where
  "readFrame_headers inp contentLength haveLength =
     (case getline inp of
        None \<Rightarrow> HeadersEnd False haveLength contentLength inp
      | Some (line0, rest, good) \<Rightarrow>
          (let line = (if line0 \<noteq> [] \<and> last line0 = CR then butlast line0 else line0)
           in if line = [] then HeadersEnd good haveLength contentLength rest
              else
                (case find_str line '':'' 0 of
                   None \<Rightarrow> readFrame_headers rest contentLength haveLength
                 | Some colon \<Rightarrow>
                     (let val = dropWhile isspace (drop (colon + 1) line);
                          name = map tolower (substr line 0 colon)
                      in if name = ''content-length'' then
                           (case stoull val of
                              None \<Rightarrow> HeadersInvalid rest
                            | Some v64 \<Rightarrow>
                                if v64 > MaxContentLength \<or> v64 > SIZE_MAX
                                then HeadersTooLarge rest
                                else readFrame_headers rest v64 True)
                         else readFrame_headers rest contentLength haveLength))))"
  by pat_completeness auto
termination
  by (relation "measure (\<lambda>(inp, contentLength, haveLength). length inp)")
     (auto dest: getline_shorter)

declare readFrame_headers.simps [simp del]

text \<open>
  The rest of \<^verbatim>\<open>readFrame\<close>: the checks after the loop and the read of the body, which
  fails when the input ends before \<^verbatim>\<open>contentLength\<close> bytes.
\<close>

definition readFrame :: "string \<Rightarrow> Impl \<Rightarrow> string option \<times> string \<times> Impl" where
  "readFrame inp s =
     (case readFrame_headers inp 0 False of
        HeadersTooLarge rest \<Rightarrow>
          (None, rest, call_errorHandler ''StdioTransport: body too large'' s)
      | HeadersInvalid rest \<Rightarrow> (None, rest, s)
      | HeadersEnd good haveLength contentLength rest \<Rightarrow>
          if \<not> good then (None, rest, s)
          else if \<not> haveLength then (None, rest, s)
          else if contentLength > MaxContentLength
          then (None, rest, call_errorHandler ''StdioTransport: body too large'' s)
          else if length rest < contentLength then (None, [], s)
          else (Some (take contentLength rest), drop contentLength rest, s))"

section \<open>Vocabulary of the statements\<close>

text \<open>The header line that \<^verbatim>\<open>makeFrame\<close> writes for a payload of \<open>n\<close> bytes.\<close>

definition header_line :: "nat \<Rightarrow> string" where
  "header_line n = ''Content-Length: '' @ to_string n"

text \<open>
  A reader buffer is drained for the payloads \<open>qs\<close> still to come when it holds a proper
  prefix of the next frame (nothing, when no frame is to come).
\<close>

definition drained :: "string list \<Rightarrow> string \<Rightarrow> bool" where
  "drained qs b = (case qs of [] \<Rightarrow> b = [] | q # _ \<Rightarrow> strict_prefix b (makeFrame q))"

text \<open>A codec that parses nothing, for the concrete runs below.\<close>

definition null_codec :: json_codec where
  "null_codec =
     \<lparr>Serialize_request = (\<lambda>r. ''{}''), Deserialize_request = (\<lambda>m. None),
      Deserialize_response = (\<lambda>m. None)\<rparr>"

text \<open>
  The accounting invariant of the write queue: \<open>queuedBytes\<close> is the size of the queued
  frames plus the size of the frame the writer holds, and stays within the cap.
\<close>

definition queue_inv :: "Impl \<Rightarrow> bool" where
  "queue_inv s =
     (queuedBytes s = sum_list (map length (writeQueue s))
        + (case writer_frame s of None \<Rightarrow> 0 | Some frame \<Rightarrow> length frame)
      \<and> queuedBytes s \<le> writeQueueMaxBytes s)"

text \<open>
  A header region written line by line: every line followed by CR LF. The lines of a
  well-formed region are not empty and hold no CR, so that the blank line that ends the
  region is the first CR LF CR LF of the buffer.
\<close>

definition header_block :: "string list \<Rightarrow> string" where
  "header_block ls = concat (map (\<lambda>l. l @ crlf) ls)"

definition header_lines_ok :: "string list \<Rightarrow> bool" where
  "header_lines_ok ls = (ls \<noteq> [] \<and> list_all (\<lambda>l. l \<noteq> [] \<and> CR \<notin> set l) ls)"

text \<open>What the header loop computes, line by line.\<close>

fun scan_lines :: "string list \<Rightarrow> nat \<Rightarrow> bool \<Rightarrow> header_scan" where
  "scan_lines [] contentLength haveLength = HeaderScanned haveLength contentLength"
| "scan_lines (l # ls) contentLength haveLength =
     (case parse_header_line l of
        LineTooLarge \<Rightarrow> HeaderTooLarge
      | LineLength v \<Rightarrow> scan_lines ls v True
      | LineIgnored \<Rightarrow> scan_lines ls contentLength haveLength)"

text \<open>
  How often a promise handle occurs as the value of a pending entry, as the target of a
  \<^verbatim>\<open>set_value\<close> call and among the promises destroyed without a value. The invariant
  of the correlation table: both maps have one entry per key and the same keys, and every
  promise created so far is counted exactly once, every other handle not at all.
\<close>

definition promise_count :: "Impl \<Rightarrow> nat \<Rightarrow> nat" where
  "promise_count s p =
     count_list (map snd (pendingRequests s)) p
     + count_list (map fst (set_values s)) p
     + count_list (broken_promises s) p"

definition promises_inv :: "Impl \<Rightarrow> bool" where
  "promises_inv s =
     (distinct (map fst (pendingRequests s))
      \<and> distinct (map fst (requestDeadlines s))
      \<and> fst ` set (pendingRequests s) = fst ` set (requestDeadlines s)
      \<and> (\<forall>p. promise_count s p = (if p < next_promise s then 1 else 0)))"

text \<open>
  The two steps on the maps that the operations share: the insertion \<^verbatim>\<open>SendRequest\<close>
  makes under \<^verbatim>\<open>requestMutex\<close>, and the completion of the request stored under a key,
  as \<^verbatim>\<open>handleResponse\<close> and the timeout thread do it.
\<close>

definition insert_pending :: "string \<Rightarrow> int \<Rightarrow> Impl \<Rightarrow> Impl" where
  "insert_pending requestId deadline s =
     s\<lparr>next_promise := next_promise s + 1,
       broken_promises :=
         (case map_of (pendingRequests s) requestId of
            Some old \<Rightarrow> broken_promises s @ [old]
          | None \<Rightarrow> broken_promises s),
       pendingRequests := AList.update requestId (next_promise s) (pendingRequests s),
       requestDeadlines := AList.update requestId deadline (requestDeadlines s),
       cvTimeout_notifies := cvTimeout_notifies s @ [NotifyAll]\<rparr>"

definition complete :: "string \<Rightarrow> JSONRPCResponse \<Rightarrow> Impl \<Rightarrow> Impl" where
  "complete idStr response s =
     (let s1 = (case map_of (pendingRequests s) idStr of
                  Some prom \<Rightarrow>
                    s\<lparr>set_values := set_values s @ [(prom, response)],
                      pendingRequests := AList.delete idStr (pendingRequests s)\<rparr>
                | None \<Rightarrow> s)
      in s1\<lparr>requestDeadlines := AList.delete idStr (requestDeadlines s1)\<rparr>)"

text \<open>
  The states of one completion slot. A request is pending under a key when the pending map
  holds its promise there and the promise has neither a value nor been destroyed. A promise
  is fulfilled with a value when \<^verbatim>\<open>set_value\<close> was called on it once, with that value, and
  it is neither stored nor destroyed; the request is completed when, besides, its key is in
  neither map. A promise is displaced when it was destroyed without a value.
\<close>

definition pending_in :: "Impl \<Rightarrow> string \<Rightarrow> nat \<Rightarrow> bool" where
  "pending_in s k p =
     (map_of (pendingRequests s) k = Some p
      \<and> count_list (map fst (set_values s)) p = 0
      \<and> count_list (broken_promises s) p = 0)"

definition fulfilled_with :: "Impl \<Rightarrow> nat \<Rightarrow> JSONRPCResponse \<Rightarrow> bool" where
  "fulfilled_with s p v =
     (count_list (set_values s) (p, v) = 1
      \<and> count_list (map fst (set_values s)) p = 1
      \<and> count_list (broken_promises s) p = 0
      \<and> count_list (map snd (pendingRequests s)) p = 0)"

definition completed_with :: "Impl \<Rightarrow> string \<Rightarrow> nat \<Rightarrow> JSONRPCResponse \<Rightarrow> bool" where
  "completed_with s k p v =
     (fulfilled_with s p v
      \<and> k \<notin> fst ` set (pendingRequests s)
      \<and> k \<notin> fst ` set (requestDeadlines s))"

definition displaced :: "Impl \<Rightarrow> nat \<Rightarrow> bool" where
  "displaced s p =
     (count_list (broken_promises s) p = 1
      \<and> count_list (map fst (set_values s)) p = 0
      \<and> count_list (map snd (pendingRequests s)) p = 0)"

text \<open>A codec whose only response is the text \<open>R-a\<close>, answering the request \<open>a\<close>.\<close>

definition demo_codec :: json_codec where
  "demo_codec =
     \<lparr>Serialize_request = (\<lambda>r. ''{}''),
      Deserialize_request = (\<lambda>m. None),
      Deserialize_response =
        (\<lambda>m. if m = ''R-a'' then Some (Response (IdString ''a'') (Some ''pong'') None) else None)\<rparr>"

section \<open>Decimal strings\<close>

lemma digit_char_isdigit: "d < 10 \<Longrightarrow> isdigit (digit_char d)"
  by (simp add: isdigit_def digit_char_def)

lemma digit_val_digit_char: "d < 10 \<Longrightarrow> digit_val (digit_char d) = d"
  by (simp add: digit_val_def digit_char_def)

lemma to_string_digits: "c \<in> set (to_string n) \<Longrightarrow> isdigit c"
proof (induction n arbitrary: c rule: to_string.induct)
  case (1 n)
  show ?case
  proof (cases "n < 10")
    case True
    with "1.prems" show ?thesis
      by (simp add: to_string.simps [of n] digit_char_isdigit)
  next
    case False
    with "1.prems" "1.IH" show ?thesis
      by (auto simp: to_string.simps [of n] digit_char_isdigit)
  qed
qed

lemma to_string_not_Nil: "to_string n \<noteq> []"
  by (simp add: to_string.simps [of n])

lemma decimal_value_snoc: "decimal_value (ds @ [c]) = 10 * decimal_value ds + digit_val c"
  by (simp add: decimal_value_def)

lemma decimal_value_to_string: "decimal_value (to_string n) = n"
proof (induction n rule: to_string.induct)
  case (1 n)
  show ?case
  proof (cases "n < 10")
    case True
    then show ?thesis
      by (simp add: to_string.simps [of n] decimal_value_def digit_val_digit_char)
  next
    case False
    with "1.IH" show ?thesis
      by (simp add: to_string.simps [of n] decimal_value_snoc digit_val_digit_char)
  qed
qed

lemma length_to_string_le: "length (to_string n) \<le> Suc n"
proof (induction n rule: to_string.induct)
  case (1 n)
  show ?case
  proof (cases "n < 10")
    case True
    then show ?thesis by (simp add: to_string.simps [of n])
  next
    case False
    with "1.IH" have "length (to_string (n div 10)) \<le> Suc (n div 10)" by simp
    with False show ?thesis by (simp add: to_string.simps [of n])
  qed
qed

lemma isdigit_not_isspace: "isdigit c \<Longrightarrow> \<not> isspace c"
  by (auto simp: isdigit_def isspace_def)

lemma isdigit_not_sign: "isdigit c \<Longrightarrow> c \<noteq> CHR ''-'' \<and> c \<noteq> CHR ''+'' \<and> c \<noteq> CR \<and> c \<noteq> CHR '':''"
  by (auto simp: isdigit_def)

lemma dropWhile_isspace_to_string: "dropWhile isspace (to_string n) = to_string n"
proof (cases "to_string n")
  case Nil
  then show ?thesis by simp
next
  case (Cons c cs)
  then have "isdigit c" using to_string_digits [of c n] by simp
  with Cons show ?thesis by (simp add: isdigit_not_isspace)
qed

lemma takeWhile_isdigit_to_string: "takeWhile isdigit (to_string n) = to_string n"
  by (simp add: to_string_digits)

lemma stoull_to_string: "n \<le> ULLONG_MAX \<Longrightarrow> stoull (to_string n) = Some n"
proof -
  assume n: "n \<le> ULLONG_MAX"
  obtain c cs where cs: "to_string n = c # cs"
    using to_string_not_Nil [of n] by (cases "to_string n") auto
  then have "isdigit c" using to_string_digits [of c n] by simp
  then have c: "c \<noteq> CHR ''-''" "c \<noteq> CHR ''+''" using isdigit_not_sign by auto
  have tw: "takeWhile isdigit (c # cs) = to_string n"
    using takeWhile_isdigit_to_string [of n] cs by simp
  have dw: "dropWhile isspace (to_string n) = c # cs"
    using dropWhile_isspace_to_string [of n] cs by simp
  show ?thesis
    unfolding stoull_def dw Let_def list.case
    using c n tw to_string_not_Nil [of n] decimal_value_to_string [of n]
    by simp
qed

section \<open>Finding the separator and scanning the header\<close>

lemma find_first_skip:
  "CR \<notin> set xs \<Longrightarrow>
   find_first (CR # ys) (xs @ zs) = map_option (\<lambda>i. length xs + i) (find_first (CR # ys) zs)"
proof (induction xs)
  case Nil
  show ?case by (cases "find_first (CR # ys) zs") simp_all
next
  case (Cons x xs)
  then show ?case by (cases "find_first (CR # ys) zs") auto
qed

lemma find_first_no_CR: "CR \<notin> set xs \<Longrightarrow> find_first (CR # ys) xs = None"
  using find_first_skip [of xs ys "[]"] by simp

lemma find_first_here: "find_first (c # ys) (c # ys @ rest) = Some 0"
  by simp

lemma CR_notin_to_string: "CR \<notin> set (to_string n)"
  using to_string_digits [of CR n] by (auto simp: isdigit_def)

lemma CR_notin_header_line: "CR \<notin> set (header_line n)"
  using CR_notin_to_string [of n] by (simp add: header_line_def)

lemma find_sep_header:
  "find_str (header_line n @ sep @ rest) sep 0 = Some (length (header_line n))"
  using find_first_skip [where xs = "header_line n" and ys = "[LF, CR, LF]" and zs = "sep @ rest"]
    CR_notin_header_line [of n]
  by (simp add: find_str_def)

lemma find_crlf_header:
  "find_str (header_line n @ sep @ rest) crlf 0 = Some (length (header_line n))"
  using find_first_skip [where xs = "header_line n" and ys = "[LF]" and zs = "sep @ rest"]
    CR_notin_header_line [of n]
  by (simp add: find_str_def)

lemma parse_header_line_content_length:
  assumes "n \<le> MaxContentLength"
  shows "parse_header_line (header_line n) = LineLength n"
proof -
  have n: "n \<le> ULLONG_MAX" "n \<le> SIZE_MAX"
    using assms by (simp_all add: MaxContentLength_def ULLONG_MAX_def SIZE_MAX_def)
  have colon: "find_str (header_line n) '':'' 0 = Some 14"
    by (simp add: find_str_def header_line_def)
  have name: "map tolower (substr (header_line n) 0 14) = ''content-length''"
    by (simp add: header_line_def substr_def tolower_def char_of_def bit_0)
  have val: "dropWhile isspace (drop (14 + 1) (header_line n)) = to_string n"
    by (simp add: header_line_def isspace_def dropWhile_isspace_to_string)
  show ?thesis
    unfolding parse_header_line_def colon option.case Let_def name val
    using assms n by (simp add: stoull_to_string)
qed

lemma scan_headers_header_line:
  assumes "n \<le> MaxContentLength"
  shows "scan_headers (header_line n @ sep @ rest) (length (header_line n)) 0 0 False
         = HeaderScanned True n"
proof -
  let ?h = "length (header_line n)"
  have pos: "0 < ?h" by (simp add: header_line_def)
  have line: "substr (header_line n @ sep @ rest) 0 (?h - 0) = header_line n"
    by (simp add: substr_def)
  have fin: "scan_headers (header_line n @ sep @ rest) ?h (?h + 2) n True = HeaderScanned True n"
    by (subst scan_headers.simps) simp
  show ?thesis
    apply (subst scan_headers.simps)
    apply (simp only: pos if_True find_crlf_header option.case line
        parse_header_line_content_length [OF assms] line_result.case fin)
    apply simp
    done
qed

lemma makeFrame_header: "makeFrame p = header_line (length p) @ sep @ p"
  by (simp add: makeFrame_def header_line_def)

lemma length_header_line_le: "length (header_line n) \<le> n + 17"
  using length_to_string_le [of n] by (simp add: header_line_def)

lemma extractFrame_complete:
  assumes "length p \<le> MaxContentLength"
  shows "extractFrame (makeFrame p @ rest) s = (Some p, rest, s)"
proof -
  let ?hd = "header_line (length p)"
  let ?h = "length ?hd"
  have buf: "makeFrame p @ rest = ?hd @ sep @ (p @ rest)"
    by (simp add: makeFrame_header)
  have fits: "\<not> length p > SIZE_MAX - (?h + length sep)"
    using assms length_header_line_le [of "length p"]
    by (simp add: MaxContentLength_def SIZE_MAX_def)
  have len: "\<not> length (?hd @ sep @ (p @ rest)) < ?h + length sep + length p"
    by simp
  have body: "substr (?hd @ sep @ (p @ rest)) (?h + length sep) (length p) = p"
    unfolding substr_def by (simp only: append_assoc [symmetric] length_append [symmetric] drop_append) simp
  have rest: "drop (?h + length sep + length p) (?hd @ sep @ (p @ rest)) = rest"
    by (simp only: append_assoc [symmetric] length_append [symmetric] drop_append) simp
  show ?thesis
    unfolding buf extractFrame_def find_sep_header option.case
      scan_headers_header_line [OF assms] header_scan.case Let_def
    by (simp only: fits len body rest if_False if_True not_True_eq_False not_not)
qed

lemma makeFrame_hello: "makeFrame ''hello'' = ''Content-Length: 5'' @ sep @ ''hello''"
  by (simp add: makeFrame_def to_string.simps digit_char_def char_of_def bit_0 bit_Suc)

lemma makeFrame_empty: "makeFrame [] = ''Content-Length: 0'' @ sep"
  by (simp add: makeFrame_def to_string.simps digit_char_def char_of_def bit_0 bit_Suc)

text \<open>
  Claim C2. For every payload \<open>P\<close> of at most \<open>MaxContentLength\<close> (1 MiB) bytes, the
  empty payload and a payload of exactly 1 MiB included, extracting from a buffer that
  holds \<open>makeFrame P\<close> followed by any bytes \<open>rest\<close> returns \<open>P\<close> and leaves exactly \<open>rest\<close> in
  the buffer; no handler is called and the state is unchanged.
\<close>

theorem extractFrame_makeFrame:
  "length P \<le> MaxContentLength \<Longrightarrow> extractFrame (makeFrame P @ rest) s = (Some P, rest, s)"
  by (rule extractFrame_complete)

theorem extractFrame_makeFrame_witness:
  "extractFrame (''Content-Length: 5'' @ sep @ ''hello'' @ ''xyz'') (new_Impl 3)
     = (Some ''hello'', ''xyz'', new_Impl 3)
   \<and> extractFrame (makeFrame [] @ ''xyz'') (new_Impl 3) = (Some [], ''xyz'', new_Impl 3)
   \<and> extractFrame (makeFrame (replicate (1024 * 1024) (CHR ''a'')) @ ''xyz'') (new_Impl 3)
     = (Some (replicate (1024 * 1024) (CHR ''a'')), ''xyz'', new_Impl 3)"
  using extractFrame_makeFrame [of "''hello''" "''xyz''" "new_Impl 3"]
    extractFrame_makeFrame [of "[]" "''xyz''" "new_Impl 3"]
    extractFrame_makeFrame [of "replicate (1024 * 1024) (CHR ''a'')" "''xyz''" "new_Impl 3"]
  by (simp add: MaxContentLength_def makeFrame_hello)

section \<open>Feeding the stream in chunks\<close>

lemma strict_prefix_sep_no_match:
  "prefix us sep \<Longrightarrow> us \<noteq> sep \<Longrightarrow> find_first sep us = None"
  by (auto simp: prefix_Cons)

lemma extractFrame_need_more:
  assumes p: "length p \<le> MaxContentLength"
    and b: "strict_prefix b (makeFrame p)"
  shows "extractFrame b s = (None, b, s)"
proof -
  let ?hd = "header_line (length p)"
  let ?h = "length ?hd"
  from b have pre: "prefix b (?hd @ (sep @ p))" and ne: "b \<noteq> ?hd @ sep @ p"
    by (simp_all add: makeFrame_header strict_prefix_def)
  have split: "prefix b ?hd \<or> (\<exists>us. b = ?hd @ us \<and> prefix us sep \<and> us \<noteq> sep)
      \<or> (\<exists>vs. b = ?hd @ sep @ vs \<and> prefix vs p)"
  proof (cases "prefix b ?hd")
    case True
    then show ?thesis by simp
  next
    case False
    with pre obtain us where us: "b = ?hd @ us" "prefix us (sep @ p)"
      unfolding prefix_append [of b ?hd] by blast
    show ?thesis
    proof (cases "prefix us sep \<and> us \<noteq> sep")
      case True
      with us(1) show ?thesis by blast
    next
      case False
      with us(2) obtain vs where "us = sep @ vs" "prefix vs p"
        unfolding prefix_append [of us sep p] by (cases "us = sep") auto
      with us(1) show ?thesis by blast
    qed
  qed
  then consider
      (header) "prefix b ?hd"
    | (blank) us where "b = ?hd @ us" "prefix us sep" "us \<noteq> sep"
    | (body) vs where "b = ?hd @ sep @ vs" "prefix vs p"
    by blast
  then show ?thesis
  proof cases
    case header
    then have "CR \<notin> set b"
      using CR_notin_header_line [of "length p"] set_mono_prefix [of b ?hd] by auto
    then have "find_str b sep 0 = None"
      by (simp add: find_str_def find_first_no_CR)
    then show ?thesis by (simp add: extractFrame_def)
  next
    case blank
    have "find_str b sep 0 = None"
      using find_first_skip [where xs = ?hd and ys = "[LF, CR, LF]" and zs = us]
        CR_notin_header_line [of "length p"] strict_prefix_sep_no_match [OF blank(2,3)]
      by (simp add: find_str_def blank(1))
    then show ?thesis by (simp add: extractFrame_def)
  next
    case body
    from body ne have "vs \<noteq> p" by auto
    with body(2) have short: "length vs < length p"
      using prefix_length_less [of vs p] by (simp add: strict_prefix_def)
    have fits: "\<not> length p > SIZE_MAX - (?h + length sep)"
      using p length_header_line_le [of "length p"]
      by (simp add: MaxContentLength_def SIZE_MAX_def)
    have len: "length (?hd @ sep @ vs) < ?h + length sep + length p"
      using short by simp
    show ?thesis
      unfolding body(1) extractFrame_def find_sep_header option.case
        scan_headers_header_line [OF p] header_scan.case Let_def
      by (simp only: fits len if_False if_True not_True_eq_False not_not)
  qed
qed

lemma connected_handleResponse [simp]: "connected (handleResponse r s) = connected s"
  by (simp add: handleResponse_def Let_def split: option.splits)

lemma received_handleResponse [simp]: "received (handleResponse r s) = received s"
  by (simp add: handleResponse_def Let_def split: option.splits)

lemma connected_processMessage [simp]: "connected (processMessage P m s) = connected s"
  by (simp add: processMessage_def Let_def split: option.splits)

lemma received_processMessage [simp]: "received (processMessage P m s) = received s @ [m]"
  by (simp add: processMessage_def Let_def split: option.splits)

lemma connected_fold_processMessage: "connected (fold (processMessage P) ps s) = connected s"
  by (induction ps arbitrary: s) simp_all

lemma received_fold_processMessage: "received (fold (processMessage P) ps s) = received s @ ps"
  by (induction ps arbitrary: s) simp_all

lemma drainFrames_frames:
  assumes "connected s"
    and "\<forall>p \<in> set ps. length p \<le> MaxContentLength"
    and "length q \<le> MaxContentLength"
    and "strict_prefix b (makeFrame q)"
  shows "drainFrames P (concat (map makeFrame ps) @ b) s = (b, fold (processMessage P) ps s)"
  using assms
proof (induction ps arbitrary: s)
  case Nil
  then show ?case
    by (simp add: drainFrames.simps [of P b s] extractFrame_need_more [of q b s])
next
  case (Cons p ps)
  from Cons.prems have p: "length p \<le> MaxContentLength" by simp
  have step: "extractFrame (makeFrame p @ (concat (map makeFrame ps) @ b)) s
              = (Some p, concat (map makeFrame ps) @ b, s)"
    by (rule extractFrame_complete [OF p])
  have "drainFrames P (concat (map makeFrame (p # ps)) @ b) s
        = drainFrames P (concat (map makeFrame ps) @ b) (processMessage P p s)"
    using Cons.prems(1) step
    by (subst drainFrames.simps) simp
  also have "\<dots> = (b, fold (processMessage P) ps (processMessage P p s))"
    using Cons.prems by (intro Cons.IH) simp_all
  finally show ?case by simp
qed

lemma frame_not_Nil: "makeFrame p \<noteq> []"
  by (simp add: makeFrame_def)

lemma strict_prefix_Nil_frame: "strict_prefix [] (makeFrame p)"
  by (simp add: makeFrame_def)

lemma prefix_concat_frames:
  "prefix x (concat (map makeFrame qs)) \<Longrightarrow>
   \<exists>qs1 qs2 b. qs = qs1 @ qs2 \<and> x = concat (map makeFrame qs1) @ b \<and> drained qs2 b"
proof (induction qs arbitrary: x)
  case Nil
  then have "[] = [] @ ([]::string list) \<and> x = concat (map makeFrame []) @ [] \<and> drained [] []"
    by (simp add: drained_def)
  then show ?case by blast
next
  case (Cons q qs)
  show ?case
  proof (cases "strict_prefix x (makeFrame q)")
    case True
    then have "q # qs = [] @ (q # qs) \<and> x = concat (map makeFrame []) @ x \<and> drained (q # qs) x"
      by (simp add: drained_def)
    then show ?thesis by blast
  next
    case False
    with Cons.prems obtain us where us: "x = makeFrame q @ us" "prefix us (concat (map makeFrame qs))"
      by (auto simp: prefix_append strict_prefix_def)
    from Cons.IH [OF us(2)] obtain qs1 qs2 b where
      d: "qs = qs1 @ qs2" "us = concat (map makeFrame qs1) @ b" "drained qs2 b"
      by blast
    then have "q # qs = (q # qs1) @ qs2 \<and> x = concat (map makeFrame (q # qs1)) @ b \<and> drained qs2 b"
      using us(1) by simp
    then show ?thesis by blast
  qed
qed

lemma feed_frames:
  assumes "connected s"
    and "\<forall>p \<in> set qs. length p \<le> MaxContentLength"
    and "drained qs b"
    and "b @ concat chunks = concat (map makeFrame qs)"
  shows "feed P chunks (b, s) = ([], fold (processMessage P) qs s)"
  using assms
proof (induction chunks arbitrary: b s qs)
  case Nil
  have "qs = []"
  proof (cases qs)
    case Nil
    then show ?thesis .
  next
    case (Cons q qs')
    with Nil.prems(3) have "length b < length (makeFrame q)"
      by (simp add: drained_def prefix_length_less)
    moreover from Nil.prems(4) Cons have "length (makeFrame q) \<le> length b" by simp
    ultimately show ?thesis by simp
  qed
  with Nil.prems show ?case by simp
next
  case (Cons c cs)
  have "prefix (b @ c) (concat (map makeFrame qs))"
    using Cons.prems(4) by (metis append.assoc concat.simps(2) prefixI)
  then obtain qs1 qs2 b' where
    d: "qs = qs1 @ qs2" "b @ c = concat (map makeFrame qs1) @ b'" "drained qs2 b'"
    using prefix_concat_frames by blast
  have valid1: "\<forall>p \<in> set qs1. length p \<le> MaxContentLength"
    and valid2: "\<forall>p \<in> set qs2. length p \<le> MaxContentLength"
    using Cons.prems(2) d(1) by auto
  have "\<exists>q. length q \<le> MaxContentLength \<and> strict_prefix b' (makeFrame q)"
  proof (cases qs2)
    case Nil
    with d(3) have "strict_prefix b' (makeFrame [])"
      by (simp add: drained_def strict_prefix_Nil_frame)
    then show ?thesis by (intro exI [of _ "[]"]) simp
  next
    case (Cons q qs2')
    with d(3) valid2 show ?thesis by (auto simp: drained_def)
  qed
  then obtain q where q: "length q \<le> MaxContentLength" "strict_prefix b' (makeFrame q)"
    by blast
  have dr: "drainFrames P (b @ c) s = (b', fold (processMessage P) qs1 s)"
    unfolding d(2) by (rule drainFrames_frames [OF Cons.prems(1) valid1 q])
  have rest: "b' @ concat cs = concat (map makeFrame qs2)"
  proof -
    have "concat (map makeFrame qs1) @ (b' @ concat cs)
          = concat (map makeFrame qs1) @ concat (map makeFrame qs2)"
      using Cons.prems(4) d(1,2) by (metis append.assoc concat.simps(2) concat_append map_append)
    then show ?thesis by simp
  qed
  have "feed P (c # cs) (b, s) = feed P cs (b', fold (processMessage P) qs1 s)"
    by (simp add: dr)
  also have "\<dots> = ([], fold (processMessage P) qs2 (fold (processMessage P) qs1 s))"
    using Cons.prems(1) valid2 d(3) rest
    by (intro Cons.IH) (simp_all add: connected_fold_processMessage)
  finally show ?case by (simp add: d(1))
qed

text \<open>
  Claim C1. Let a byte stream be the concatenation of the frames of the payloads \<open>ps\<close>,
  each of at most \<open>MaxContentLength\<close> bytes, and let it arrive split into arbitrary chunks.
  Appending the chunks one by one to the initially empty reader buffer and draining after
  each (extracting until the extractor returns nothing) dispatches exactly the payloads
  \<open>ps\<close>, each once and in order, and ends with an empty buffer.
\<close>

theorem feed_yields_payloads:
  assumes "connected s"
    and "\<forall>p \<in> set ps. length p \<le> MaxContentLength"
    and "concat chunks = concat (map makeFrame ps)"
  shows "feed P chunks ([], s) = ([], fold (processMessage P) ps s)
         \<and> received (snd (feed P chunks ([], s))) = received s @ ps"
proof -
  have "drained ps []"
    by (cases ps) (simp_all add: drained_def strict_prefix_Nil_frame)
  with assms have "feed P chunks ([], s) = ([], fold (processMessage P) ps s)"
    by (intro feed_frames) simp_all
  then show ?thesis by (simp add: received_fold_processMessage)
qed

theorem feed_yields_payloads_witness:
  "fst (feed null_codec
          [''Content-Length: 5'' @ [CR], [LF, CR, LF] @ ''hel'', ''lo'' @ ''Content-Length: 0'' @ sep]
          ([], Start (new_Impl 3))) = []
   \<and> received (snd (feed null_codec
          [''Content-Length: 5'' @ [CR], [LF, CR, LF] @ ''hel'', ''lo'' @ ''Content-Length: 0'' @ sep]
          ([], Start (new_Impl 3)))) = [''hello'', []]"
  using feed_yields_payloads [of "Start (new_Impl 3)" "[''hello'', []]"
      "[''Content-Length: 5'' @ [CR], [LF, CR, LF] @ ''hel'', ''lo'' @ ''Content-Length: 0'' @ sep]"
      null_codec]
  by (simp add: Start_def new_Impl_def MaxContentLength_def makeFrame_hello makeFrame_empty)

section \<open>Header regions of several lines\<close>

lemma header_block_Cons: "header_block (l # ls) = l @ crlf @ header_block ls"
  by (simp add: header_block_def)

lemma header_block_Nil: "header_block [] = []"
  by (simp add: header_block_def)

lemma length_header_block_ge: "header_lines_ok ls \<Longrightarrow> 3 \<le> length (header_block ls)"
  by (cases ls) (auto simp: header_lines_ok_def header_block_Cons Suc_le_eq)

lemma header_lines_ok_Cons:
  "header_lines_ok (l # ls) \<longleftrightarrow> l \<noteq> [] \<and> CR \<notin> set l \<and> (ls = [] \<or> header_lines_ok ls)"
  by (auto simp: header_lines_ok_def)

lemma header_block_starts:
  "header_lines_ok ls \<Longrightarrow> \<exists>c cs. c \<noteq> CR \<and> header_block ls @ zs = c # cs"
  by (cases ls; cases "hd ls") (auto simp: header_lines_ok_def header_block_Cons)

lemma find_first_sep_line:
  "l \<noteq> [] \<Longrightarrow> CR \<notin> set l \<Longrightarrow>
   find_first sep (CR # LF # l @ zs) = map_option (\<lambda>i. 2 + i) (find_first sep (l @ zs))"
  by (cases l) (auto simp: option.map_comp comp_def)

lemma find_sep_block:
  "header_lines_ok ls \<Longrightarrow>
   find_first sep (header_block ls @ crlf @ rest) = Some (length (header_block ls) - 2)"
proof (induction ls)
  case Nil
  then show ?case by (simp add: header_lines_ok_def)
next
  case (Cons l ls)
  then have l: "l \<noteq> []" "CR \<notin> set l" by (simp_all add: header_lines_ok_Cons)
  show ?case
  proof (cases ls)
    case Nil
    have "find_first sep (l @ sep @ rest) = Some (length l)"
      using find_first_skip [where xs = l and ys = "[LF, CR, LF]" and zs = "sep @ rest"] l(2)
      by simp
    then show ?thesis
      by (simp add: Nil header_block_Cons header_block_Nil)
  next
    case (Cons l2 ls2)
    with Cons.prems have ok: "header_lines_ok ls" by (simp add: header_lines_ok_Cons)
    then have l2: "l2 \<noteq> []" "CR \<notin> set l2"
      by (simp_all add: Cons header_lines_ok_Cons)
    let ?Z = "crlf @ header_block ls2 @ crlf @ rest"
    have ih: "find_first sep (l2 @ ?Z) = Some (length (header_block ls) - 2)"
      using Cons.IH [OF ok] by (simp add: Cons header_block_Cons)
    have "find_first sep (CR # LF # l2 @ ?Z) = Some (2 + (length (header_block ls) - 2))"
      unfolding find_first_sep_line [OF l2] ih by simp
    then have "find_first sep (l @ CR # LF # l2 @ ?Z)
        = Some (length l + (2 + (length (header_block ls) - 2)))"
      unfolding find_first_skip [where xs = l and ys = "[LF, CR, LF]", OF l(2)] by simp
    moreover have "header_block (l # ls) @ crlf @ rest = l @ CR # LF # l2 @ ?Z"
      by (simp add: Cons header_block_Cons)
    moreover have "length (header_block (l # ls)) - 2 = length l + (2 + (length (header_block ls) - 2))"
      using length_header_block_ge [OF ok] by (simp add: header_block_Cons)
    ultimately show ?thesis by (simp only:)
  qed
qed

lemma scan_headers_block:
  "header_lines_ok ls \<Longrightarrow>
   scan_headers (pre @ header_block ls @ crlf @ rest)
     (length pre + length (header_block ls) - 2) (length pre) n h
   = scan_lines ls n h"
proof (induction ls arbitrary: pre n h)
  case Nil
  then show ?case by (simp add: header_lines_ok_def)
next
  case (Cons l ls)
  then have l: "l \<noteq> []" "CR \<notin> set l" by (simp_all add: header_lines_ok_Cons)
  let ?Y = "header_block ls @ crlf @ rest"
  let ?buf = "pre @ header_block (l # ls) @ crlf @ rest"
  let ?H = "length pre + length (header_block (l # ls)) - 2"
  have buf: "?buf = pre @ l @ CR # LF # ?Y" by (simp add: header_block_Cons)
  have H: "?H = length pre + length l + length (header_block ls)"
    by (simp add: header_block_Cons)
  have pos: "length pre < ?H" using l(1) by (simp add: H)
  have eol: "find_str ?buf crlf (length pre) = Some (length pre + length l)"
    using find_first_skip [where xs = l and ys = "[LF]" and zs = "CR # LF # ?Y"] l(2)
    by (simp add: find_str_def header_block_Cons)
  have le: "\<not> length pre + length l > ?H" by (simp add: H)
  have line: "substr ?buf (length pre) (length pre + length l - length pre) = l"
    by (simp add: substr_def header_block_Cons)
  have rest: "scan_headers ?buf ?H (length pre + length l + 2) n' h' = scan_lines ls n' h'"
    for n' h'
  proof (cases "ls = []")
    case True
    have np: "\<not> length pre + length l + 2 < length pre + length (header_block [l]) - 2"
      by (simp add: header_block_Cons header_block_Nil)
    show ?thesis
      unfolding True by (subst scan_headers.simps) (simp only: np if_False scan_lines.simps)
  next
    case False
    with Cons.prems have ok: "header_lines_ok ls" by (simp add: header_lines_ok_Cons)
    have "scan_headers ((pre @ l @ crlf) @ header_block ls @ crlf @ rest)
            (length (pre @ l @ crlf) + length (header_block ls) - 2) (length (pre @ l @ crlf)) n' h'
          = scan_lines ls n' h'"
      by (rule Cons.IH [OF ok])
    moreover have "length (pre @ l @ crlf) + length (header_block ls) - 2 = ?H"
      using length_header_block_ge [OF ok] by (simp add: H)
    ultimately show ?thesis by (simp add: header_block_Cons add.assoc)
  qed
  show ?case
    apply (subst scan_headers.simps)
    apply (simp only: pos if_True eol option.case le if_False line rest)
    apply (cases "parse_header_line l")
      apply simp_all
    done
qed

lemma extractFrame_block:
  assumes ok: "header_lines_ok ls"
  shows "extractFrame (header_block ls @ crlf @ rest) s =
     (case scan_lines ls 0 False of
        HeaderTooLarge \<Rightarrow> (None, rest, call_errorHandler ''StdioTransport: body too large'' s)
      | HeaderScanned haveLength contentLength \<Rightarrow>
          if \<not> haveLength then (None, rest, s)
          else if contentLength > SIZE_MAX - (length (header_block ls) + 2) then (None, rest, s)
          else if length rest < contentLength then (None, header_block ls @ crlf @ rest, s)
          else (Some (take contentLength rest), drop contentLength rest, s))"
proof -
  let ?buf = "header_block ls @ crlf @ rest"
  let ?H = "length (header_block ls) - 2"
  have ge: "3 \<le> length (header_block ls)" by (rule length_header_block_ge [OF ok])
  have f: "find_str ?buf sep 0 = Some ?H"
    using find_sep_block [OF ok, of rest] by (simp add: find_str_def)
  have sc: "scan_headers ?buf ?H 0 0 False = scan_lines ls 0 False"
    using scan_headers_block [OF ok, of "[]" rest 0 False] by simp
  have H4: "?H + length sep = length (header_block ls) + 2" using ge by simp
  have dr: "drop (length (header_block ls) + 2) ?buf = rest" by simp
  have dr2: "drop (length (header_block ls) + 2 + k) ?buf = drop k rest" for k
    by (simp add: add.commute [of _ k] drop_drop [symmetric] del: drop_drop)
  have len: "length ?buf < length (header_block ls) + 2 + k \<longleftrightarrow> length rest < k" for k
    by auto
  show ?thesis
    unfolding extractFrame_def f option.case sc Let_def H4 dr substr_def len dr2
    by (simp split: header_scan.splits)
qed

section \<open>Line endings\<close>

lemma extractFrame_no_CR: "CR \<notin> set buf \<Longrightarrow> extractFrame buf s = (None, buf, s)"
  by (simp add: extractFrame_def find_str_def find_first_no_CR)

lemma drainFrames_no_CR: "CR \<notin> set buf \<Longrightarrow> drainFrames P buf s = (buf, s)"
  by (subst drainFrames.simps) (simp add: extractFrame_no_CR)

text \<open>
  Claim C7 fails on the code. \<^verbatim>\<open>extractFrame\<close> looks for CR LF CR LF and splits on CR LF
  only, so a stream whose frames end their header lines with a bare LF is never framed:
  whatever the chunking, nothing is dispatched and the bytes stay in the buffer.
\<close>

theorem feed_LF_only:
  assumes "CR \<notin> set buffer" and "\<forall>chunk \<in> set chunks. CR \<notin> set chunk"
  shows "feed P chunks (buffer, s) = (buffer @ concat chunks, s)"
  using assms
proof (induction chunks arbitrary: buffer)
  case Nil
  then show ?case by simp
next
  case (Cons c cs)
  then have "CR \<notin> set (buffer @ c)" by simp
  then have "drainFrames P (buffer @ c) s = (buffer @ c, s)" by (rule drainFrames_no_CR)
  moreover have "feed P cs (buffer @ c, s) = ((buffer @ c) @ concat cs, s)"
    using Cons.prems \<open>CR \<notin> set (buffer @ c)\<close> by (intro Cons.IH) simp_all
  ultimately show ?case by simp
qed

theorem feed_LF_only_witness:
  "feed null_codec [''Content-Length: 5'' @ [LF, LF] @ ''hello''] ([], Start (new_Impl 3))
     = (''Content-Length: 5'' @ [LF, LF] @ ''hello'', Start (new_Impl 3))
   \<and> received (Start (new_Impl 3)) = []"
  using feed_LF_only [of "[]" "[''Content-Length: 5'' @ [LF, LF] @ ''hello'']" null_codec
      "Start (new_Impl 3)"]
  by (simp add: Start_def new_Impl_def)

text \<open>The stream reader, which the receive path does not use, accepts the same bytes.\<close>

lemma readFrame_LF_only:
  "readFrame (''Content-Length: 5'' @ [LF, LF] @ ''hello'') s = (Some ''hello'', [], s)"
  by (simp add: readFrame_def readFrame_headers.simps getline_def find_str_def substr_def
      tolower_def char_of_def bit_0 isspace_def stoull_def isdigit_def decimal_value_def
      digit_val_def ULLONG_MAX_def MaxContentLength_def SIZE_MAX_def)

section \<open>Framing errors\<close>

lemma scan_lines_ignored:
  "list_all (\<lambda>l. parse_header_line l = LineIgnored) ls \<Longrightarrow>
   scan_lines ls n h = HeaderScanned h n"
  by (induction ls) simp_all

lemma scan_lines_too_large:
  "list_all (\<lambda>l. parse_header_line l \<noteq> LineTooLarge) ls1 \<Longrightarrow>
   parse_header_line l = LineTooLarge \<Longrightarrow>
   scan_lines (ls1 @ l # ls2) n h = HeaderTooLarge"
proof (induction ls1 arbitrary: n h)
  case Nil
  then show ?case by simp
next
  case (Cons a ls1)
  then show ?case by (cases "parse_header_line a") simp_all
qed

lemma parse_header_line_no_colon: "CHR '':'' \<notin> set l \<Longrightarrow> parse_header_line l = LineIgnored"
proof -
  assume "CHR '':'' \<notin> set l"
  then have "find_first '':'' l = None" by (induction l) auto
  then show ?thesis by (simp add: parse_header_line_def find_str_def)
qed

lemma parse_header_line_too_large:
  assumes "MaxContentLength < n" and "n \<le> ULLONG_MAX"
  shows "parse_header_line (header_line n) = LineTooLarge"
proof -
  have colon: "find_str (header_line n) '':'' 0 = Some 14"
    by (simp add: find_str_def header_line_def)
  have name: "map tolower (substr (header_line n) 0 14) = ''content-length''"
    by (simp add: header_line_def substr_def tolower_def char_of_def bit_0)
  have val: "dropWhile isspace (drop (14 + 1) (header_line n)) = to_string n"
    by (simp add: header_line_def isspace_def dropWhile_isspace_to_string)
  show ?thesis
    unfolding parse_header_line_def colon option.case Let_def name val
    using assms by (simp add: stoull_to_string)
qed

lemma parse_header_line_out_of_range:
  assumes "ULLONG_MAX < n"
  shows "parse_header_line (header_line n) = LineIgnored"
proof -
  have colon: "find_str (header_line n) '':'' 0 = Some 14"
    by (simp add: find_str_def header_line_def)
  have name: "map tolower (substr (header_line n) 0 14) = ''content-length''"
    by (simp add: header_line_def substr_def tolower_def char_of_def bit_0)
  have val: "dropWhile isspace (drop (14 + 1) (header_line n)) = to_string n"
    by (simp add: header_line_def isspace_def dropWhile_isspace_to_string)
  obtain c cs where cs: "to_string n = c # cs"
    using to_string_not_Nil [of n] by (cases "to_string n") auto
  then have "isdigit c" using to_string_digits [of c n] by simp
  then have c: "c \<noteq> CHR ''-''" "c \<noteq> CHR ''+''" using isdigit_not_sign by auto
  have "stoull (to_string n) = None"
    unfolding stoull_def dropWhile_isspace_to_string Let_def
    using c assms takeWhile_isdigit_to_string [of n] decimal_value_to_string [of n] cs
    by simp
  then show ?thesis
    unfolding parse_header_line_def colon option.case Let_def name val by simp
qed

lemma header_line_1048577: "header_line 1048577 = ''Content-Length: 1048577''"
  by (simp add: header_line_def to_string.simps digit_char_def char_of_def bit_0 bit_Suc)

lemma parse_header_line_abc: "parse_header_line ''Content-Length: abc'' = LineIgnored"
  by (simp add: parse_header_line_def find_str_def substr_def tolower_def char_of_def bit_0
      isspace_def stoull_def isdigit_def)

text \<open>
  Claim C8, as amended. Take a header region of non-empty lines without CR, followed by
  the blank line and any bytes \<open>rest\<close>. When no line sets a length (each has no colon,
  another name, or a \<^verbatim>\<open>Content-Length\<close> value that \<^verbatim>\<open>stoull\<close> rejects), the extractor
  returns nothing, leaves exactly \<open>rest\<close> in the buffer and changes nothing else: the error
  handler is not called. When the first line that is too large (a \<^verbatim>\<open>Content-Length\<close> that
  \<^verbatim>\<open>stoull\<close> reads as more than \<open>MaxContentLength\<close>) is reached, the extractor returns
  nothing, leaves exactly \<open>rest\<close> and calls the error handler (when one is registered) with
  the body-too-large message. In both cases \<open>connected\<close> is untouched.
\<close>

theorem extractFrame_framing_error:
  assumes "header_lines_ok ls"
  shows "(list_all (\<lambda>l. parse_header_line l = LineIgnored) ls \<longrightarrow>
            extractFrame (header_block ls @ crlf @ rest) s = (None, rest, s))
       \<and> (ls = ls1 @ l # ls2 \<and> list_all (\<lambda>l'. parse_header_line l' \<noteq> LineTooLarge) ls1
            \<and> parse_header_line l = LineTooLarge \<longrightarrow>
            extractFrame (header_block ls @ crlf @ rest) s
              = (None, rest,
                 if errorHandler s
                 then s\<lparr>errorHandler_calls :=
                          errorHandler_calls s @ [''StdioTransport: body too large'']\<rparr>
                 else s))"
proof (intro conjI impI)
  assume "list_all (\<lambda>l. parse_header_line l = LineIgnored) ls"
  then have "scan_lines ls 0 False = HeaderScanned False 0"
    by (rule scan_lines_ignored)
  then show "extractFrame (header_block ls @ crlf @ rest) s = (None, rest, s)"
    unfolding extractFrame_block [OF assms] by simp
next
  assume "ls = ls1 @ l # ls2 \<and> list_all (\<lambda>l'. parse_header_line l' \<noteq> LineTooLarge) ls1
      \<and> parse_header_line l = LineTooLarge"
  then have "scan_lines ls 0 False = HeaderTooLarge"
    using scan_lines_too_large [of ls1 l ls2 0 False] by simp
  then show "extractFrame (header_block ls @ crlf @ rest) s
      = (None, rest,
         if errorHandler s
         then s\<lparr>errorHandler_calls :=
                  errorHandler_calls s @ [''StdioTransport: body too large'']\<rparr>
         else s)"
    unfolding extractFrame_block [OF assms] by (simp add: call_errorHandler_def)
qed

theorem extractFrame_framing_error_witness:
  "extractFrame (''X-Trace: 1'' @ crlf @ ''Content-Length: abc'' @ sep @ ''rest'')
       ((Start (new_Impl 3))\<lparr>errorHandler := True\<rparr>)
     = (None, ''rest'', (Start (new_Impl 3))\<lparr>errorHandler := True\<rparr>)
   \<and> extractFrame (''Content-Length: 1048577'' @ sep @ ''rest'')
       ((Start (new_Impl 3))\<lparr>errorHandler := True\<rparr>)
     = (None, ''rest'', (Start (new_Impl 3))\<lparr>errorHandler := True,
          errorHandler_calls := [''StdioTransport: body too large'']\<rparr>)"
  using extractFrame_framing_error [of "[''X-Trace: 1'', ''Content-Length: abc'']" "''rest''"
      "(Start (new_Impl 3))\<lparr>errorHandler := True\<rparr>"]
    extractFrame_framing_error [of "[''Content-Length: 1048577'']" "''rest''"
      "(Start (new_Impl 3))\<lparr>errorHandler := True\<rparr>" "[]" "''Content-Length: 1048577''" "[]"]
    parse_header_line_too_large [of 1048577]
  by (simp add: header_lines_ok_def header_block_def header_line_1048577 parse_header_line_abc
      MaxContentLength_def ULLONG_MAX_def Start_def new_Impl_def
      parse_header_line_def [of "''X-Trace: 1''"] find_str_def substr_def tolower_def char_of_def bit_0)

text \<open>
  Claim C8 as stated fails for a missing or invalid length: the handler is registered, the
  header region is dropped, and the handler has not been called.
\<close>

theorem invalid_length_not_reported:
  "errorHandler ((Start (new_Impl 3))\<lparr>errorHandler := True\<rparr>)
   \<and> errorHandler_calls (snd (snd (extractFrame (''Content-Length: abc'' @ sep @ ''rest'')
         ((Start (new_Impl 3))\<lparr>errorHandler := True\<rparr>)))) = []"
  using extractFrame_block [of "[''Content-Length: abc'']" "''rest''"
      "(Start (new_Impl 3))\<lparr>errorHandler := True\<rparr>"]
  by (simp add: header_lines_ok_def header_block_def parse_header_line_abc Start_def new_Impl_def)

section \<open>The write queue: overflow and accounting\<close>

lemma makeFrame_x: "makeFrame ''x'' = ''Content-Length: 1'' @ sep @ ''x''"
  by (simp add: makeFrame_def to_string.simps digit_char_def char_of_def bit_0 bit_Suc)

lemma enqueueFrame_no_wrap:
  assumes "queuedBytes s + length (makeFrame payload) \<le> SIZE_MAX"
  shows "enqueueFrame payload s =
     (if queuedBytes s + length (makeFrame payload) > writeQueueMaxBytes s
      then (False,
            s\<lparr>connected := False,
              errorHandler_calls :=
                (if errorHandler s
                 then errorHandler_calls s @ [''StdioTransport: write queue overflow'']
                 else errorHandler_calls s),
              wake_writes := (if wakeEventFd s \<ge> 0 then wake_writes s + 1 else wake_writes s),
              cvWrite_notifies := cvWrite_notifies s @ [NotifyAll]\<rparr>)
      else (True,
            s\<lparr>queuedBytes := queuedBytes s + length (makeFrame payload),
              writeQueue := writeQueue s @ [makeFrame payload],
              cvWrite_notifies := cvWrite_notifies s @ [NotifyOne]\<rparr>))"
proof -
  from assms have "(queuedBytes s + length (makeFrame payload)) mod 2 ^ 64
      = queuedBytes s + length (makeFrame payload)"
    by (simp add: SIZE_MAX_def)
  then show ?thesis
    by (simp add: enqueueFrame_def Let_def call_errorHandler_def signal_wakeup_def)
qed

text \<open>
  Claim C4. An enqueue whose frame would take \<open>queuedBytes\<close> above the configured cap calls
  the error handler (when one is registered) with the write-queue-overflow message, clears
  \<open>connected\<close>, signals the wakeup primitive (when it was created), notifies the writer's
  condition variable and returns false, leaving the queue as it was. An enqueue within the
  cap appends the frame, adds its size to \<open>queuedBytes\<close>, notifies the writer and returns
  true. Nothing else changes. The sum is taken as the code takes it, in \<^verbatim>\<open>size_t\<close>; the
  premise says that it does not wrap, which holds whenever the queued frames and the new
  one are in memory together.
\<close>

theorem enqueueFrame_cap:
  assumes "queuedBytes s + length (makeFrame payload) \<le> SIZE_MAX"
  shows "enqueueFrame payload s =
     (if queuedBytes s + length (makeFrame payload) > writeQueueMaxBytes s
      then (False,
            s\<lparr>connected := False,
              errorHandler_calls :=
                (if errorHandler s
                 then errorHandler_calls s @ [''StdioTransport: write queue overflow'']
                 else errorHandler_calls s),
              wake_writes := (if wakeEventFd s \<ge> 0 then wake_writes s + 1 else wake_writes s),
              cvWrite_notifies := cvWrite_notifies s @ [NotifyAll]\<rparr>)
      else (True,
            s\<lparr>queuedBytes := queuedBytes s + length (makeFrame payload),
              writeQueue := writeQueue s @ [makeFrame payload],
              cvWrite_notifies := cvWrite_notifies s @ [NotifyOne]\<rparr>))"
  using assms by (rule enqueueFrame_no_wrap)

theorem enqueueFrame_cap_witness:
  "enqueueFrame ''hello'' ((Start (new_Impl 3))\<lparr>errorHandler := True, writeQueueMaxBytes := 30, queuedBytes := 22,
       writeQueue := [makeFrame ''x'']\<rparr>)
   = (False, (new_Impl 3)\<lparr>errorHandler := True, writeQueueMaxBytes := 30, queuedBytes := 22,
       writeQueue := [makeFrame ''x''],
       errorHandler_calls := [''StdioTransport: write queue overflow''], wake_writes := 1,
       cvWrite_notifies := [NotifyAll]\<rparr>)
   \<and> enqueueFrame ''hello'' ((Start (new_Impl 3))\<lparr>errorHandler := True, writeQueueMaxBytes := 48, queuedBytes := 22,
       writeQueue := [makeFrame ''x'']\<rparr>)
   = (True, (Start (new_Impl 3))\<lparr>errorHandler := True, writeQueueMaxBytes := 48, queuedBytes := 48,
       writeQueue := [makeFrame ''x'', makeFrame ''hello''], cvWrite_notifies := [NotifyOne]\<rparr>)"
  using enqueueFrame_cap [of "(Start (new_Impl 3))\<lparr>errorHandler := True, writeQueueMaxBytes := 30, queuedBytes := 22,
       writeQueue := [makeFrame ''x'']\<rparr>" "''hello''"]
    enqueueFrame_cap [of "(Start (new_Impl 3))\<lparr>errorHandler := True, writeQueueMaxBytes := 48, queuedBytes := 22,
       writeQueue := [makeFrame ''x'']\<rparr>" "''hello''"]
  by (simp add: makeFrame_x makeFrame_hello Start_def new_Impl_def SIZE_MAX_def)

lemma cap_queue_step [simp]: "writeQueueMaxBytes (queue_step e s) = writeQueueMaxBytes s"
  by (cases e)
     (auto simp: enqueueFrame_def Let_def call_errorHandler_def signal_wakeup_def
        dequeueNextFrame_def accountWritten_def split: option.splits list.splits)

lemma queue_inv_step:
  assumes "queue_inv s"
    and "\<And>p. e = Enqueue p \<Longrightarrow> writeQueueMaxBytes s + length (makeFrame p) \<le> SIZE_MAX"
  shows "queue_inv (queue_step e s)"
proof (cases e)
  case (Enqueue p)
  from assms Enqueue have "queuedBytes s + length (makeFrame p) \<le> SIZE_MAX"
    by (simp add: queue_inv_def)
  from enqueueFrame_no_wrap [OF this] assms(1) Enqueue show ?thesis
    by (auto simp: queue_inv_def)
next
  case WriterDequeue
  with assms(1) show ?thesis
    by (auto simp: queue_inv_def dequeueNextFrame_def split: option.splits list.splits)
next
  case WriterAccount
  with assms(1) show ?thesis
    by (auto simp: queue_inv_def accountWritten_def split: option.splits)
next
  case Disconnect
  with assms(1) show ?thesis by (simp add: queue_inv_def)
qed

text \<open>
  Claim C5, as amended. At every point of every interleaving of enqueues, writer dequeues
  and writer accountings, \<open>queuedBytes\<close> equals the summed length of the frames in the
  queue plus the length of the frame the writer has dequeued and not yet accounted, and
  never exceeds \<open>writeQueueMaxBytes\<close>.
\<close>

theorem queue_accounting:
  assumes "queue_inv s"
    and "\<forall>p. Enqueue p \<in> set evs \<longrightarrow> writeQueueMaxBytes s + length (makeFrame p) \<le> SIZE_MAX"
  shows "queuedBytes (queue_run evs s)
           = sum_list (map length (writeQueue (queue_run evs s)))
             + (case writer_frame (queue_run evs s) of None \<Rightarrow> 0 | Some frame \<Rightarrow> length frame)
         \<and> queuedBytes (queue_run evs s) \<le> writeQueueMaxBytes (queue_run evs s)"
proof -
  have "queue_inv (fold queue_step evs s)"
    using assms
  proof (induction evs arbitrary: s)
    case Nil
    then show ?case by simp
  next
    case (Cons e evs)
    have "queue_inv (queue_step e s)"
      using Cons.prems by (intro queue_inv_step) auto
    moreover have "\<forall>p. Enqueue p \<in> set evs \<longrightarrow>
        writeQueueMaxBytes (queue_step e s) + length (makeFrame p) \<le> SIZE_MAX"
      using Cons.prems(2) by simp
    ultimately show ?case using Cons.IH by simp
  qed
  then show ?thesis by (simp add: queue_inv_def queue_run_def)
qed

theorem queue_accounting_witness:
  "queuedBytes (queue_run [Enqueue ''x'', WriterDequeue, Enqueue ''hello'', WriterAccount] (Start (new_Impl 3)))
     = sum_list (map length (writeQueue (queue_run [Enqueue ''x'', WriterDequeue, Enqueue ''hello'', WriterAccount] (Start (new_Impl 3)))))
   \<and> queuedBytes (queue_run [Enqueue ''x'', WriterDequeue, Enqueue ''hello'', WriterAccount] (Start (new_Impl 3))) = 26"
  using queue_accounting [of "Start (new_Impl 3)" "[Enqueue ''x'', WriterDequeue, Enqueue ''hello'', WriterAccount]"]
  by (simp add: queue_inv_def queue_run_def enqueueFrame_def makeFrame_x makeFrame_hello Start_def new_Impl_def
      dequeueNextFrame_def accountWritten_def SIZE_MAX_def)

text \<open>
  Claim C5 as stated fails between \<^verbatim>\<open>dequeueNextFrame\<close> and \<^verbatim>\<open>accountWritten\<close>: after one
  enqueue and one dequeue the queue is empty while \<open>queuedBytes\<close> still counts the 22 bytes
  of the frame being written.
\<close>

theorem queuedBytes_counts_frame_in_flight:
  "queuedBytes (queue_run [Enqueue ''x'', WriterDequeue] (Start (new_Impl 3)))
     \<noteq> sum_list (map length (writeQueue (queue_run [Enqueue ''x'', WriterDequeue] (Start (new_Impl 3)))))
   \<and> queuedBytes (queue_run [Enqueue ''x'', WriterDequeue] (Start (new_Impl 3))) = 22
   \<and> writeQueue (queue_run [Enqueue ''x'', WriterDequeue] (Start (new_Impl 3))) = []"
  by (simp add: queue_run_def enqueueFrame_def makeFrame_x Start_def new_Impl_def
      dequeueNextFrame_def)

section \<open>Dispatch of notifications\<close>

lemma notificationHandler_calls_handleResponse [simp]:
  "notificationHandler_calls (handleResponse r s) = notificationHandler_calls s"
  by (simp add: handleResponse_def Let_def split: option.splits)

text \<open>
  Claim C6 fails on the code. \<^verbatim>\<open>processMessage\<close> tries a message as a request and then
  as a response; it never calls \<^verbatim>\<open>handleNotification\<close>, so no message, whatever it
  parses as, reaches the notification handler.
\<close>

theorem processMessage_never_notifies:
  "notificationHandler_calls (processMessage P message s) = notificationHandler_calls s"
  by (simp add: processMessage_def Let_def split: option.splits)

theorem processMessage_never_notifies_witness:
  "notificationHandler_calls
     (processMessage null_codec
        (''{'' @ [DQ] @ ''jsonrpc'' @ [DQ] @ '':'' @ [DQ] @ ''2.0'' @ [DQ] @ '','' @ [DQ] @ ''method'' @ [DQ]
           @ '':'' @ [DQ] @ ''notifications/initialized'' @ [DQ] @ ''}'')
        ((Start (new_Impl 3))\<lparr>notificationHandler := True\<rparr>)) = []
   \<and> received
     (processMessage null_codec
        (''{'' @ [DQ] @ ''jsonrpc'' @ [DQ] @ '':'' @ [DQ] @ ''2.0'' @ [DQ] @ '','' @ [DQ] @ ''method'' @ [DQ]
           @ '':'' @ [DQ] @ ''notifications/initialized'' @ [DQ] @ ''}'')
        ((Start (new_Impl 3))\<lparr>notificationHandler := True\<rparr>))
     = [''{'' @ [DQ] @ ''jsonrpc'' @ [DQ] @ '':'' @ [DQ] @ ''2.0'' @ [DQ] @ '','' @ [DQ] @ ''method'' @ [DQ]
           @ '':'' @ [DQ] @ ''notifications/initialized'' @ [DQ] @ ''}'']"
  using processMessage_never_notifies [of null_codec
      "''{'' @ [DQ] @ ''jsonrpc'' @ [DQ] @ '':'' @ [DQ] @ ''2.0'' @ [DQ] @ '','' @ [DQ] @ ''method'' @ [DQ]
           @ '':'' @ [DQ] @ ''notifications/initialized'' @ [DQ] @ ''}''"
      "(Start (new_Impl 3))\<lparr>notificationHandler := True\<rparr>"]
  by (simp add: Start_def new_Impl_def)

section \<open>Sending while disconnected\<close>

text \<open>
  Claim C9. A call of \<^verbatim>\<open>SendRequest\<close> while \<open>connected\<close> is false returns a future whose
  promise is fresh and already holds a value: a response with no result and the error
  \<open>InternalError\<close>, \<open>Transport not connected\<close>. The pending map, the deadline map, the
  write queue and \<open>queuedBytes\<close> are as before and the writer is not notified.
\<close>

theorem SendRequest_not_connected:
  assumes "\<not> connected s"
  shows "case SendRequest P now request s of
           (fut, s') \<Rightarrow>
             fut = next_promise s
             \<and> (\<exists>rid. set_values s' =
                   set_values s @
                   [(fut, Response (IdString rid) None
                            (Some (ErrorObject InternalError ''Transport not connected'' None)))])
             \<and> pendingRequests s' = pendingRequests s
             \<and> requestDeadlines s' = requestDeadlines s
             \<and> writeQueue s' = writeQueue s
             \<and> queuedBytes s' = queuedBytes s
             \<and> cvWrite_notifies s' = cvWrite_notifies s
             \<and> connected s' = connected s"
  using assms
  by (simp add: SendRequest_def SendRequest_disconnected_def generateRequestId_def Let_def
      error_response_def CreateErrorObject_def)

theorem SendRequest_not_connected_witness:
  "SendRequest null_codec 5 (Request (IdString ''abc'') ''ping'' None) (new_Impl 3)
   = (0, (new_Impl 3)\<lparr>next_promise := 1, requestCounter := 1,
        set_values := [(0, Response (IdString ''req-1'') None
          (Some (ErrorObject (- 32603) ''Transport not connected'' None)))]\<rparr>)"
  using SendRequest_not_connected [of "new_Impl 3" null_codec 5 "Request (IdString ''abc'') ''ping'' None"]
  by (simp add: new_Impl_def SendRequest_def SendRequest_disconnected_def generateRequestId_def
      Let_def error_response_def CreateErrorObject_def InternalError_def to_string.simps digit_char_def char_of_def bit_0 bit_Suc)

text \<open>
  Claim C10. The response that \<^verbatim>\<open>SendRequest\<close> resolves the future with while
  disconnected carries the id \<open>req-\<close> followed by the incremented counter, whatever id the
  request has; the counter is incremented. Unless the caller's id happens to be that very
  string, the response's id is not the caller's.
\<close>

theorem SendRequest_not_connected_id:
  assumes "\<not> connected s"
  shows "map (response_id \<circ> snd) (set_values (snd (SendRequest P now request s)))
           = map (response_id \<circ> snd) (set_values s)
             @ [IdString (''req-'' @ to_string ((requestCounter s + 1) mod 2 ^ 32))]
         \<and> requestCounter (snd (SendRequest P now request s)) = (requestCounter s + 1) mod 2 ^ 32
         \<and> (request_id request \<noteq> IdString (''req-'' @ to_string ((requestCounter s + 1) mod 2 ^ 32))
              \<longrightarrow> response_id (snd (last (set_values (snd (SendRequest P now request s)))))
                    \<noteq> request_id request)"
  using assms
  by (simp add: SendRequest_def SendRequest_disconnected_def generateRequestId_def Let_def
      error_response_def)

theorem SendRequest_not_connected_id_witness:
  "map (response_id \<circ> snd)
     (set_values (snd (SendRequest null_codec 5 (Request (IdInt 7) ''ping'' None) (new_Impl 3))))
   = [IdString ''req-1'']
   \<and> requestCounter (snd (SendRequest null_codec 5 (Request (IdInt 7) ''ping'' None) (new_Impl 3))) = 1"
  using SendRequest_not_connected_id [of "new_Impl 3" null_codec 5 "Request (IdInt 7) ''ping'' None"]
  by (simp add: new_Impl_def to_string.simps digit_char_def char_of_def bit_0 bit_Suc)

section \<open>Completion of pending requests\<close>

lemma count_values_delete:
  "distinct (map fst al) \<Longrightarrow>
   count_list (map snd al) p
     = count_list (map snd (AList.delete k al)) p
       + (if map_of al k = Some p then 1 else 0)"
proof (induction al)
  case Nil
  then show ?case by simp
next
  case (Cons a al)
  obtain k' v' where a: "a = (k', v')" by (cases a)
  from Cons.prems a have notin: "k' \<notin> fst ` set al" by auto
  show ?case
  proof (cases "k' = k")
    case True
    with notin have "AList.delete k al = al" by simp
    with True a show ?thesis by simp
  next
    case False
    with Cons a show ?thesis by simp
  qed
qed

lemma count_values_update:
  "distinct (map fst al) \<Longrightarrow>
   count_list (map snd (AList.update k v al)) p
     = count_list (map snd (AList.delete k al)) p + (if p = v then 1 else 0)"
proof (induction al)
  case Nil
  then show ?case by simp
next
  case (Cons a al)
  obtain k' v' where a: "a = (k', v')" by (cases a)
  from Cons.prems a have notin: "k' \<notin> fst ` set al" by auto
  show ?case
  proof (cases "k' = k")
    case True
    with notin have "AList.delete k al = al" by simp
    with True a show ?thesis by simp
  next
    case False
    with Cons a show ?thesis by simp
  qed
qed

lemma keys_delete: "fst ` set (AList.delete k al) = fst ` set al - {k}"
  by (induction al) auto

text \<open>\<^verbatim>\<open>enqueueFrame\<close> and \<^verbatim>\<open>generateRequestId\<close> leave the correlation state alone.\<close>

lemma enqueueFrame_requests [simp]:
  "pendingRequests (snd (enqueueFrame p s)) = pendingRequests s"
  "requestDeadlines (snd (enqueueFrame p s)) = requestDeadlines s"
  "set_values (snd (enqueueFrame p s)) = set_values s"
  "broken_promises (snd (enqueueFrame p s)) = broken_promises s"
  "next_promise (snd (enqueueFrame p s)) = next_promise s"
  by (simp_all add: enqueueFrame_def Let_def call_errorHandler_def signal_wakeup_def)

lemma generateRequestId_requests [simp]:
  "pendingRequests (snd (generateRequestId s)) = pendingRequests s"
  "requestDeadlines (snd (generateRequestId s)) = requestDeadlines s"
  "set_values (snd (generateRequestId s)) = set_values s"
  "broken_promises (snd (generateRequestId s)) = broken_promises s"
  "next_promise (snd (generateRequestId s)) = next_promise s"
  by (simp_all add: generateRequestId_def Let_def)

lemma promises_inv_cong:
  "pendingRequests s' = pendingRequests s \<Longrightarrow> requestDeadlines s' = requestDeadlines s \<Longrightarrow>
   set_values s' = set_values s \<Longrightarrow> broken_promises s' = broken_promises s \<Longrightarrow>
   next_promise s' = next_promise s \<Longrightarrow> promises_inv s' = promises_inv s"
  by (simp add: promises_inv_def promise_count_def)

lemma promises_inv_insert_pending:
  assumes "promises_inv s"
  shows "promises_inv (insert_pending k d s)"
proof -
  from assms have dist: "distinct (map fst (pendingRequests s))"
    and dist2: "distinct (map fst (requestDeadlines s))"
    and keys: "fst ` set (pendingRequests s) = fst ` set (requestDeadlines s)"
    and cnt: "\<And>p. promise_count s p = (if p < next_promise s then 1 else 0)"
    by (simp_all add: promises_inv_def)
  have "promise_count (insert_pending k d s) p = (if p < next_promise s + 1 then 1 else 0)" for p
  proof -
    have "promise_count (insert_pending k d s) p
          = promise_count s p + (if p = next_promise s then 1 else 0)"
      using count_values_delete [OF dist, of p k]
      by (auto simp: promise_count_def insert_pending_def count_values_update [OF dist]
          split: option.splits)
    then show ?thesis by (simp add: cnt)
  qed
  then show ?thesis
    using dist dist2 keys
    by (simp add: promises_inv_def insert_pending_def distinct_update dom_update)
qed

lemma promises_inv_complete:
  assumes "promises_inv s"
  shows "promises_inv (complete k r s)"
proof -
  from assms have dist: "distinct (map fst (pendingRequests s))"
    and dist2: "distinct (map fst (requestDeadlines s))"
    and keys: "fst ` set (pendingRequests s) = fst ` set (requestDeadlines s)"
    and cnt: "\<And>p. promise_count s p = (if p < next_promise s then 1 else 0)"
    by (simp_all add: promises_inv_def)
  have none: "map_of (pendingRequests s) k = None \<Longrightarrow> AList.delete k (requestDeadlines s) = requestDeadlines s"
    using keys by (simp add: map_of_eq_None_iff)
  have "promise_count (complete k r s) p = promise_count s p" for p
    using count_values_delete [OF dist, of p k]
    by (auto simp: promise_count_def complete_def Let_def split: option.splits)
  moreover have "next_promise (complete k r s) = next_promise s"
    by (simp add: complete_def Let_def split: option.splits)
  moreover have "fst ` set (pendingRequests (complete k r s))
      = fst ` set (requestDeadlines (complete k r s))"
    using keys none by (auto simp: complete_def Let_def keys_delete map_of_eq_None_iff split: option.splits)
  moreover have "distinct (map fst (pendingRequests (complete k r s)))"
    "distinct (map fst (requestDeadlines (complete k r s)))"
    using dist dist2 by (auto simp: complete_def Let_def distinct_delete split: option.splits)
  ultimately show ?thesis by (simp add: promises_inv_def cnt)
qed

lemma handleResponse_complete: "handleResponse r s = complete (id_key (response_id r)) r s"
  by (simp add: handleResponse_def complete_def Let_def)

lemma expire_complete: "expire k s = complete k (error_response k ''Request timeout'') s"
  by (simp add: expire_def complete_def)

lemma promises_inv_fold_expire: "promises_inv s \<Longrightarrow> promises_inv (fold expire ks s)"
  by (induction ks arbitrary: s) (simp_all add: expire_complete promises_inv_complete)

lemma promises_inv_consumeExpired: "promises_inv s \<Longrightarrow> promises_inv (consumeExpired now s)"
  by (simp add: consumeExpired_def Let_def promises_inv_fold_expire)

lemma promises_inv_SendRequest_connected:
  assumes "promises_inv s"
  shows "promises_inv (snd (SendRequest_connected P now request s))"
proof -
  have "\<exists>k d e s1. snd (SendRequest_connected P now request s)
            = snd (enqueueFrame e (insert_pending k d s1))
          \<and> promises_inv s1 = promises_inv s"
  proof (cases "case request_id request of
                  IdString x \<Rightarrow> if x \<noteq> [] then Some x else None
                | IdInt n \<Rightarrow> Some (to_string_int n)
                | IdNull \<Rightarrow> None")
    case None
    then have "snd (SendRequest_connected P now request s)
        = snd (enqueueFrame
                 (Serialize_request P (Request (IdString (fst (generateRequestId s)))
                    (request_method request) (request_params request)))
                 (insert_pending (fst (generateRequestId s))
                    (request_deadline now (snd (generateRequestId s)))
                    (snd (generateRequestId s))))"
      unfolding SendRequest_connected_def Let_def None option.case
      by (simp add: insert_pending_def split_beta)
    moreover have "promises_inv (snd (generateRequestId s)) = promises_inv s"
      by (rule promises_inv_cong) simp_all
    ultimately show ?thesis by blast
  next
    case (Some x)
    then have "snd (SendRequest_connected P now request s)
        = snd (enqueueFrame (Serialize_request P request)
                 (insert_pending x (request_deadline now s) s))"
      unfolding SendRequest_connected_def Let_def Some option.case
      by (simp add: insert_pending_def)
    then show ?thesis by blast
  qed
  then obtain k d e s1 where
    eq: "snd (SendRequest_connected P now request s) = snd (enqueueFrame e (insert_pending k d s1))"
    and s1: "promises_inv s1 = promises_inv s"
    by blast
  have "promises_inv (snd (enqueueFrame e (insert_pending k d s1)))
        = promises_inv (insert_pending k d s1)"
    by (rule promises_inv_cong) simp_all
  with assms s1 show ?thesis
    unfolding eq by (simp add: promises_inv_insert_pending)
qed

lemma promises_inv_SendRequest_disconnected:
  assumes "promises_inv s"
  shows "promises_inv (snd (SendRequest_disconnected s))"
proof -
  from assms have cnt: "\<And>p. promise_count s p = (if p < next_promise s then 1 else 0)"
    by (simp add: promises_inv_def)
  have "promise_count (snd (SendRequest_disconnected s)) p
        = promise_count s p + (if p = next_promise s then 1 else 0)" for p
    by (simp add: promise_count_def SendRequest_disconnected_def generateRequestId_def Let_def)
  then have "promise_count (snd (SendRequest_disconnected s)) p
        = (if p < next_promise s + 1 then 1 else 0)" for p
    by (simp add: cnt)
  then show ?thesis
    using assms
    by (simp add: promises_inv_def SendRequest_disconnected_def generateRequestId_def Let_def)
qed

lemma promises_inv_processMessage:
  "promises_inv s \<Longrightarrow> promises_inv (processMessage P m s)"
proof -
  assume inv: "promises_inv s"
  let ?s1 = "s\<lparr>received := received s @ [m]\<rparr>"
  have s1: "promises_inv ?s1"
    using inv promises_inv_cong [of ?s1 s] by simp
  have thread: "promises_inv (?s1\<lparr>handler_threads := handler_threads ?s1 @ [req]\<rparr>)" for req
    using s1 promises_inv_cong [of "?s1\<lparr>handler_threads := handler_threads ?s1 @ [req]\<rparr>" ?s1]
    by simp
  show ?thesis
    using s1 thread
    by (auto simp: processMessage_def Let_def handleResponse_complete promises_inv_complete
        split: option.splits)
qed

lemma map_fst_closed:
  "map (fst \<circ> (\<lambda>(idStr, prom). (prom, f idStr))) al = map snd al"
  by (induction al) auto

lemma Close_maps: "pendingRequests (Close s) = [] \<and> requestDeadlines (Close s) = []"
  by (simp add: Close_def Let_def signal_wakeup_def)

lemma promise_count_Close: "promise_count (Close s) p = promise_count s p"
  by (simp add: promise_count_def Close_def Let_def signal_wakeup_def map_fst_closed)

lemma next_promise_Close: "next_promise (Close s) = next_promise s"
  by (simp add: Close_def Let_def signal_wakeup_def)

lemma promises_inv_Close: "promises_inv s \<Longrightarrow> promises_inv (Close s)"
  by (simp add: promises_inv_def promise_count_Close next_promise_Close Close_maps)

lemma promises_inv_SetRequestTimeoutMs:
  "promises_inv (SetRequestTimeoutMs timeoutMs s) = promises_inv s"
  by (rule promises_inv_cong) (simp_all add: SetRequestTimeoutMs_def)

lemma promises_inv_step: "promises_inv s \<Longrightarrow> promises_inv (request_step P e s)"
  by (cases e)
     (simp_all add: SendRequest_def promises_inv_SendRequest_connected
        promises_inv_SendRequest_disconnected promises_inv_processMessage
        promises_inv_consumeExpired promises_inv_Close promises_inv_SetRequestTimeoutMs)

lemma promises_inv_run: "promises_inv s \<Longrightarrow> promises_inv (request_run P evs s)"
  unfolding request_run_def by (induction evs arbitrary: s) (simp_all add: promises_inv_step)

lemma map_of_None_notin: "map_of al k = None \<Longrightarrow> (k, b) \<notin> set al"
  by (metis map_of_eq_None_iff fst_conv image_eqI)

lemma complete_removes:
  "k \<notin> fst ` set (pendingRequests (complete k r s))
   \<and> k \<notin> fst ` set (requestDeadlines (complete k r s))"
  by (auto simp: complete_def Let_def keys_delete map_of_None_notin split: option.splits)

lemma count_list_pos: "x \<in> set xs \<Longrightarrow> 0 < count_list xs x"
  by (induction xs) auto

lemma count_list_pair_le: "count_list xs (p, v) \<le> count_list (map fst xs) p"
  by (induction xs) auto

lemma promise_count_le:
  assumes "promises_inv s"
  shows "promise_count s p \<le> 1"
  using assms by (simp add: promises_inv_def)

lemma pending_inI:
  assumes inv: "promises_inv s" and m: "map_of (pendingRequests s) k = Some p"
  shows "pending_in s k p"
proof -
  from m have "(k, p) \<in> set (pendingRequests s)" by (rule map_of_SomeD)
  then have "p \<in> set (map snd (pendingRequests s))" by force
  then have "0 < count_list (map snd (pendingRequests s)) p" by (rule count_list_pos)
  with promise_count_le [OF inv, of p] m show ?thesis
    by (simp add: pending_in_def promise_count_def)
qed

lemma fulfilledI:
  assumes inv: "promises_inv s" and v: "(p, v) \<in> set (set_values s)"
  shows "fulfilled_with s p v"
proof -
  from v have pos: "0 < count_list (set_values s) (p, v)" by (rule count_list_pos)
  with count_list_pair_le [of "set_values s" p v]
  have pos2: "0 < count_list (map fst (set_values s)) p" by simp
  from promise_count_le [OF inv, of p] pos pos2 count_list_pair_le [of "set_values s" p v]
  show ?thesis
    by (simp add: fulfilled_with_def promise_count_def)
qed

lemma completedI:
  assumes inv: "promises_inv s" and v: "(p, v) \<in> set (set_values s)"
    and k: "k \<notin> fst ` set (pendingRequests s)"
  shows "completed_with s k p v"
proof -
  from inv have keys: "fst ` set (pendingRequests s) = fst ` set (requestDeadlines s)"
    by (simp add: promises_inv_def)
  with fulfilledI [OF inv v] k show ?thesis
    by (simp add: completed_with_def)
qed

lemma displacedI:
  assumes inv: "promises_inv s" and b: "p \<in> set (broken_promises s)"
  shows "displaced s p"
proof -
  from b have "0 < count_list (broken_promises s) p" by (rule count_list_pos)
  with promise_count_le [OF inv, of p] show ?thesis
    by (simp add: displaced_def promise_count_def)
qed

text \<open>Completing the request stored under a key.\<close>

lemma complete_hit:
  assumes "map_of (pendingRequests s) k = Some p"
  shows "(p, r) \<in> set (set_values (complete k r s))"
    and "k \<notin> fst ` set (pendingRequests (complete k r s))"
  using assms by (simp_all add: complete_def Let_def keys_delete)

lemma complete_miss:
  assumes "map_of (pendingRequests s) k = Some p" and "k' \<noteq> k"
  shows "map_of (pendingRequests (complete k' r s)) k = Some p"
  using assms by (simp add: complete_def Let_def split: option.splits)

lemma complete_keeps:
  "(p, v) \<in> set (set_values s) \<Longrightarrow> (p, v) \<in> set (set_values (complete k' r s))"
  "k \<notin> fst ` set (pendingRequests s) \<Longrightarrow> k \<notin> fst ` set (pendingRequests (complete k' r s))"
  by (auto simp: complete_def Let_def keys_delete split: option.splits)

lemma fold_expire_keeps:
  "(p, v) \<in> set (set_values s) \<Longrightarrow> (p, v) \<in> set (set_values (fold expire ks s))"
  "k \<notin> fst ` set (pendingRequests s) \<Longrightarrow> k \<notin> fst ` set (pendingRequests (fold expire ks s))"
  by (induction ks arbitrary: s) (simp_all add: expire_complete complete_keeps)

lemma fold_expire_miss:
  "map_of (pendingRequests s) k = Some p \<Longrightarrow> k \<notin> set ks \<Longrightarrow>
   map_of (pendingRequests (fold expire ks s)) k = Some p"
proof (induction ks arbitrary: s)
  case Nil
  then show ?case by simp
next
  case (Cons a ks)
  from Cons.prems have ne: "a \<noteq> k" by auto
  have "map_of (pendingRequests (expire a s)) k = Some p"
    unfolding expire_complete by (rule complete_miss [OF Cons.prems(1) ne])
  with Cons.prems Cons.IH [of "expire a s"] show ?case by simp
qed

lemma fold_expire_hit:
  "map_of (pendingRequests s) k = Some p \<Longrightarrow> k \<in> set ks \<Longrightarrow>
   (p, error_response k ''Request timeout'') \<in> set (set_values (fold expire ks s))
   \<and> k \<notin> fst ` set (pendingRequests (fold expire ks s))"
proof (induction ks arbitrary: s)
  case Nil
  then show ?case by simp
next
  case (Cons a ks)
  show ?case
  proof (cases "a = k")
    case True
    from Cons.prems(1) have
      "(p, error_response k ''Request timeout'') \<in> set (set_values (expire k s))"
      "k \<notin> fst ` set (pendingRequests (expire k s))"
      unfolding expire_complete by (rule complete_hit)+
    then have
      "(p, error_response k ''Request timeout'') \<in> set (set_values (fold expire ks (expire k s)))"
      "k \<notin> fst ` set (pendingRequests (fold expire ks (expire k s)))"
      by (simp_all add: fold_expire_keeps)
    with True show ?thesis by simp
  next
    case False
    with Cons.prems have "map_of (pendingRequests (expire a s)) k = Some p" "k \<in> set ks"
      unfolding expire_complete by (auto intro: complete_miss)
    from Cons.IH [OF this] show ?thesis by simp
  qed
qed

lemma expired_keys:
  "distinct (map fst al) \<Longrightarrow>
   k \<in> set (map fst (filter (\<lambda>kv. snd kv \<le> now) al))
     \<longleftrightarrow> (\<exists>d. map_of al k = Some d \<and> d \<le> (now::int))"
  by (induction al) (auto simp: rev_image_eqI)

section \<open>What each operation does to a pending request\<close>

lemma consumeExpired_case:
  assumes inv: "promises_inv s" and m: "map_of (pendingRequests s) k = Some p"
  shows "if connected s \<and> (\<exists>d. map_of (requestDeadlines s) k = Some d \<and> d \<le> now)
         then completed_with (consumeExpired now s) k p (error_response k ''Request timeout'')
         else pending_in (consumeExpired now s) k p"
proof -
  let ?ks = "map fst (filter (\<lambda>kv. snd kv \<le> now) (requestDeadlines s))"
  have inv': "promises_inv (consumeExpired now s)"
    by (rule promises_inv_consumeExpired [OF inv])
  from inv have "distinct (map fst (requestDeadlines s))" by (simp add: promises_inv_def)
  then have ks: "k \<in> set ?ks \<longleftrightarrow> (\<exists>d. map_of (requestDeadlines s) k = Some d \<and> d \<le> now)"
    by (rule expired_keys)
  show ?thesis
  proof (cases "connected s \<and> (\<exists>d. map_of (requestDeadlines s) k = Some d \<and> d \<le> now)")
    case True
    then have c: "connected s" and "k \<in> set ?ks" using ks by simp_all
    from fold_expire_hit [OF m this(2)] c
    have "(p, error_response k ''Request timeout'') \<in> set (set_values (consumeExpired now s))"
      "k \<notin> fst ` set (pendingRequests (consumeExpired now s))"
      by (simp_all add: consumeExpired_def Let_def)
    from completedI [OF inv' this] True show ?thesis by simp
  next
    case False
    have "map_of (pendingRequests (consumeExpired now s)) k = Some p"
    proof (cases "connected s")
      case True
      with False ks have "k \<notin> set ?ks" by simp
      from fold_expire_miss [OF m this] True show ?thesis
        by (simp add: consumeExpired_def Let_def)
    next
      case False
      with m show ?thesis by (simp add: consumeExpired_def)
    qed
    from pending_inI [OF inv' this] have "pending_in (consumeExpired now s) k p" .
    with False show ?thesis by (simp only: if_False)
  qed
qed

lemma Close_case:
  assumes inv: "promises_inv s" and m: "map_of (pendingRequests s) k = Some p"
  shows "completed_with (Close s) k p (error_response k ''Transport closed'')"
proof -
  from m have "(k, p) \<in> set (pendingRequests s)" by (rule map_of_SomeD)
  then have "(p, error_response k ''Transport closed'') \<in> set (set_values (Close s))"
    by (force simp: Close_def Let_def signal_wakeup_def)
  moreover have "k \<notin> fst ` set (pendingRequests (Close s))"
    by (simp add: Close_maps)
  ultimately show ?thesis by (rule completedI [OF promises_inv_Close [OF inv]])
qed

lemma processMessage_cases:
  "(pendingRequests (processMessage P m s) = pendingRequests s)
   \<or> (\<exists>r. Deserialize_response P m = Some r
          \<and> processMessage P m s = handleResponse r (s\<lparr>received := received s @ [m]\<rparr>))"
  by (auto simp: processMessage_def Let_def split: option.splits)

lemma processMessage_response:
  "Deserialize_request P m = None \<or> \<not> requestHandler s \<Longrightarrow>
   Deserialize_response P m = Some r \<Longrightarrow>
   processMessage P m s = handleResponse r (s\<lparr>received := received s @ [m]\<rparr>)"
  by (auto simp: processMessage_def Let_def split: option.splits)

lemma handleResponse_case:
  assumes inv: "promises_inv s" and m: "map_of (pendingRequests s) k = Some p"
  shows "if id_key (response_id r) = k then completed_with (handleResponse r s) k p r
         else pending_in (handleResponse r s) k p"
proof -
  have inv': "promises_inv (handleResponse r s)"
    unfolding handleResponse_complete by (rule promises_inv_complete [OF inv])
  show ?thesis
  proof (cases "id_key (response_id r) = k")
    case True
    from complete_hit [OF m, of r] True
    have "(p, r) \<in> set (set_values (handleResponse r s))"
      "k \<notin> fst ` set (pendingRequests (handleResponse r s))"
      by (simp_all add: handleResponse_complete)
    from completedI [OF inv' this] True show ?thesis by simp
  next
    case False
    from complete_miss [OF m False, of r]
    have "map_of (pendingRequests (handleResponse r s)) k = Some p"
      by (simp add: handleResponse_complete)
    from pending_inI [OF inv' this] False show ?thesis by simp
  qed
qed

lemma processMessage_case:
  assumes inv: "promises_inv s" and m: "map_of (pendingRequests s) k = Some p"
  shows "pending_in (processMessage P msg s) k p
         \<or> (\<exists>r. Deserialize_response P msg = Some r \<and> id_key (response_id r) = k
                \<and> completed_with (processMessage P msg s) k p r)"
proof -
  let ?s1 = "s\<lparr>received := received s @ [msg]\<rparr>"
  have inv1: "promises_inv ?s1" using inv promises_inv_cong [of ?s1 s] by simp
  have m1: "map_of (pendingRequests ?s1) k = Some p" using m by simp
  have inv': "promises_inv (processMessage P msg s)"
    by (rule promises_inv_processMessage [OF inv])
  from processMessage_cases [of P msg s] show ?thesis
  proof
    assume "pendingRequests (processMessage P msg s) = pendingRequests s"
    with m have "map_of (pendingRequests (processMessage P msg s)) k = Some p" by simp
    from pending_inI [OF inv' this] show ?thesis ..
  next
    assume "\<exists>r. Deserialize_response P msg = Some r
        \<and> processMessage P msg s = handleResponse r ?s1"
    then obtain r where r: "Deserialize_response P msg = Some r"
      "processMessage P msg s = handleResponse r ?s1" by blast
    from handleResponse_case [OF inv1 m1, of r] r show ?thesis
      by (cases "id_key (response_id r) = k") auto
  qed
qed

lemma processMessage_matching:
  assumes inv: "promises_inv s" and m: "map_of (pendingRequests s) k = Some p"
    and "Deserialize_request P msg = None \<or> \<not> requestHandler s"
    and "Deserialize_response P msg = Some r"
    and "id_key (response_id r) = k"
  shows "completed_with (processMessage P msg s) k p r"
proof -
  let ?s1 = "s\<lparr>received := received s @ [msg]\<rparr>"
  have inv1: "promises_inv ?s1" using inv promises_inv_cong [of ?s1 s] by simp
  have m1: "map_of (pendingRequests ?s1) k = Some p" using m by simp
  from handleResponse_case [OF inv1 m1, of r] assms(3-5) show ?thesis
    by (simp add: processMessage_response)
qed

lemma SendRequest_connected_insert:
  "\<exists>k' d e s1. snd (SendRequest_connected P now request s)
       = snd (enqueueFrame e (insert_pending k' d s1))
     \<and> pendingRequests s1 = pendingRequests s \<and> broken_promises s1 = broken_promises s
     \<and> next_promise s1 = next_promise s"
proof (cases "case request_id request of
                IdString x \<Rightarrow> if x \<noteq> [] then Some x else None
              | IdInt n \<Rightarrow> Some (to_string_int n)
              | IdNull \<Rightarrow> None")
  case None
  then have "snd (SendRequest_connected P now request s)
      = snd (enqueueFrame
               (Serialize_request P (Request (IdString (fst (generateRequestId s)))
                  (request_method request) (request_params request)))
               (insert_pending (fst (generateRequestId s))
                  (request_deadline now (snd (generateRequestId s)))
                  (snd (generateRequestId s))))"
    unfolding SendRequest_connected_def Let_def None option.case
    by (simp add: insert_pending_def split_beta)
  then show ?thesis
    using generateRequestId_requests [of s] by blast
next
  case (Some x)
  then have "snd (SendRequest_connected P now request s)
      = snd (enqueueFrame (Serialize_request P request)
               (insert_pending x (request_deadline now s) s))"
    unfolding SendRequest_connected_def Let_def Some option.case
    by (simp add: insert_pending_def)
  then show ?thesis by blast
qed

lemma SendRequest_connected_case:
  assumes inv: "promises_inv s" and m: "map_of (pendingRequests s) k = Some p"
  shows "pending_in (snd (SendRequest_connected P now request s)) k p
         \<or> (displaced (snd (SendRequest_connected P now request s)) p
            \<and> map_of (pendingRequests (snd (SendRequest_connected P now request s))) k
                = Some (next_promise s))"
proof -
  let ?s' = "snd (SendRequest_connected P now request s)"
  have inv': "promises_inv ?s'" by (rule promises_inv_SendRequest_connected [OF inv])
  obtain k' d e s1 where eq: "?s' = snd (enqueueFrame e (insert_pending k' d s1))"
    and s1: "pendingRequests s1 = pendingRequests s" "broken_promises s1 = broken_promises s"
      "next_promise s1 = next_promise s"
    using SendRequest_connected_insert [of P now request s] by blast
  show ?thesis
  proof (cases "k' = k")
    case True
    with m s1 have "p \<in> set (broken_promises ?s')"
      "map_of (pendingRequests ?s') k = Some (next_promise s)"
      unfolding eq by (simp_all add: insert_pending_def update_conv')
    with displacedI [OF inv'] show ?thesis by simp
  next
    case False
    with m s1 have "map_of (pendingRequests ?s') k = Some p"
      unfolding eq by (simp add: insert_pending_def update_conv')
    from pending_inI [OF inv' this] show ?thesis ..
  qed
qed

lemma SendRequest_case:
  assumes inv: "promises_inv s" and m: "map_of (pendingRequests s) k = Some p"
  shows "pending_in (snd (SendRequest P now request s)) k p
         \<or> (displaced (snd (SendRequest P now request s)) p
            \<and> map_of (pendingRequests (snd (SendRequest P now request s))) k
                = Some (next_promise s))"
proof (cases "connected s")
  case True
  with SendRequest_connected_case [OF inv m, of P now request] show ?thesis
    by (simp add: SendRequest_def)
next
  case False
  have "promises_inv (snd (SendRequest_disconnected s))"
    by (rule promises_inv_SendRequest_disconnected [OF inv])
  moreover have "map_of (pendingRequests (snd (SendRequest_disconnected s))) k = Some p"
    using m by (simp add: SendRequest_disconnected_def generateRequestId_def Let_def)
  ultimately have "pending_in (snd (SendRequest_disconnected s)) k p" by (rule pending_inI)
  with False show ?thesis by (simp add: SendRequest_def)
qed

text \<open>Values and destroyed promises are only ever added.\<close>

lemma complete_grows:
  "prefix (set_values s) (set_values (complete k r s))"
  "broken_promises (complete k r s) = broken_promises s"
  by (simp_all add: complete_def Let_def split: option.splits)

lemma fold_expire_grows:
  "prefix (set_values s) (set_values (fold expire ks s))"
  "broken_promises (fold expire ks s) = broken_promises s"
proof (induction ks arbitrary: s)
  case Nil
  { case 1 show ?case by simp }
  { case 2 show ?case by simp }
next
  case (Cons a ks)
  { case 1
    have "prefix (set_values s) (set_values (expire a s))"
      unfolding expire_complete by (rule complete_grows)
    moreover have "prefix (set_values (expire a s)) (set_values (fold expire ks (expire a s)))"
      by (rule Cons.IH)
    ultimately show ?case by (simp add: prefix_order.order_trans [of "set_values s"]) }
  { case 2
    show ?case using Cons.IH(2) [of "expire a s"] by (simp add: expire_complete complete_grows) }
qed

lemma processMessage_grows:
  "prefix (set_values s) (set_values (processMessage P m s))"
  "broken_promises (processMessage P m s) = broken_promises s"
  using complete_grows [where s = "s\<lparr>received := received s @ [m]\<rparr>"]
  by (auto simp: processMessage_def Let_def handleResponse_complete split: option.splits)

lemma step_grows:
  "prefix (set_values s) (set_values (request_step P e s))
   \<and> prefix (broken_promises s) (broken_promises (request_step P e s))"
proof (cases e)
  case (Send now request)
  obtain k' d e' s1 where eq: "snd (SendRequest_connected P now request s)
        = snd (enqueueFrame e' (insert_pending k' d s1))"
    and "pendingRequests s1 = pendingRequests s" "broken_promises s1 = broken_promises s"
    using SendRequest_connected_insert [of P now request s] by blast
  moreover have "set_values (snd (SendRequest_connected P now request s)) = set_values s"
    by (simp add: SendRequest_connected_def Let_def split_beta split: option.splits)
  ultimately show ?thesis
    using Send
    by (auto simp: SendRequest_def SendRequest_disconnected_def generateRequestId_def Let_def
        insert_pending_def split: option.splits)
next
  case (SendLate now request)
  obtain k' d e' s1 where eq: "snd (SendRequest_connected P now request s)
        = snd (enqueueFrame e' (insert_pending k' d s1))"
    and "pendingRequests s1 = pendingRequests s" "broken_promises s1 = broken_promises s"
    using SendRequest_connected_insert [of P now request s] by blast
  moreover have "set_values (snd (SendRequest_connected P now request s)) = set_values s"
    by (simp add: SendRequest_connected_def Let_def split_beta split: option.splits)
  ultimately show ?thesis
    using SendLate by (auto simp: insert_pending_def split: option.splits)
next
  case (Receive m)
  then show ?thesis by (simp add: processMessage_grows)
next
  case (TimeoutWake now)
  then show ?thesis
    by (simp add: consumeExpired_def Let_def fold_expire_grows)
next
  case CloseTransport
  then show ?thesis by (simp add: Close_def Let_def signal_wakeup_def)
next
  case (SetTimeout timeoutMs)
  then show ?thesis by (simp add: SetRequestTimeoutMs_def)
qed

lemma run_grows:
  "prefix (set_values s) (set_values (request_run P evs s))
   \<and> prefix (broken_promises s) (broken_promises (request_run P evs s))"
  unfolding request_run_def
proof (induction evs arbitrary: s)
  case Nil
  show ?case by simp
next
  case (Cons e evs)
  from step_grows [of s P e] Cons.IH [of "request_step P e s"] show ?case
    by (auto intro: prefix_order.order_trans)
qed

lemma fulfilled_stays:
  assumes inv: "promises_inv s" and f: "fulfilled_with s p v"
  shows "fulfilled_with (request_run P evs s) p v"
proof -
  from f have "count_list (set_values s) (p, v) \<noteq> 0" by (simp add: fulfilled_with_def)
  then have "(p, v) \<in> set (set_values s)" by (simp add: count_list_0_iff)
  with run_grows [of s P evs] have "(p, v) \<in> set (set_values (request_run P evs s))"
    by (auto dest: set_mono_prefix)
  with promises_inv_run [OF inv] show ?thesis by (rule fulfilledI)
qed

lemma displaced_stays:
  assumes inv: "promises_inv s" and d: "displaced s p"
  shows "displaced (request_run P evs s) p"
proof -
  from d have "count_list (broken_promises s) p \<noteq> 0" by (simp add: displaced_def)
  then have "p \<in> set (broken_promises s)" by (simp add: count_list_0_iff)
  with run_grows [of s P evs] have "p \<in> set (broken_promises (request_run P evs s))"
    by (auto dest: set_mono_prefix)
  with promises_inv_run [OF inv] show ?thesis by (rule displacedI)
qed

lemma request_deadline_in_range:
  assumes "- (2 ^ 63) \<le> requestTimeout s * 1000000" "requestTimeout s * 1000000 < 2 ^ 63"
    and "- (2 ^ 63) \<le> now + requestTimeout s * 1000000"
      "now + requestTimeout s * 1000000 < 2 ^ 63"
  shows "request_deadline now s = now + requestTimeout s * 1000000"
  using assms by (simp add: request_deadline_def wrap64_def)

lemma request_deadline_disabled:
  assumes "- (2 ^ 63) + 1000000 \<le> now" "now < 2 ^ 63"
  shows "request_deadline now (SetRequestTimeoutMs 0 s) = now - 1000000"
  using assms by (simp add: request_deadline_def wrap64_def SetRequestTimeoutMs_def)

text \<open>
  Claim C3, as amended. Take any state reached by a trace of \<^verbatim>\<open>SendRequest\<close> calls,
  dispatched messages, timeout wakes, \<^verbatim>\<open>Close\<close> and \<^verbatim>\<open>SetRequestTimeoutMs\<close> calls, and
  any entry of its pending map, a key with its promise. The promise has no value yet and
  was not destroyed, and the pending map and the deadline map have the same keys. Then

    \<^item> \<^verbatim>\<open>Close\<close> calls \<^verbatim>\<open>set_value\<close> on the promise exactly once, with the
      \<open>Transport closed\<close> error for the key, and leaves both maps empty;

    \<^item> a wake of the timeout thread calls \<^verbatim>\<open>set_value\<close> on it exactly once, with the
      \<open>Request timeout\<close> error, and removes the key from both maps, when the transport is
      connected and the stored deadline of the key is not after the time of the wake;
      otherwise it leaves the request pending;

    \<^item> the dispatch of a message either leaves the request pending, or calls
      \<^verbatim>\<open>set_value\<close> exactly once, with the response the message deserialises to, whose id
      is the key, and removes the key from both maps; it does the latter whenever the
      message is not handed to the request handler and deserialises to a response with
      that id;

    \<^item> a \<^verbatim>\<open>SendRequest\<close> (also one that passed the test of \<^verbatim>\<open>connected\<close> before the flag
      was cleared) either leaves the request pending or, reusing the key, stores its own
      new promise under the key and destroys the earlier promise without a value;
      \<^verbatim>\<open>SetRequestTimeoutMs\<close> leaves the request pending;

    \<^item> once a promise has its value, or is destroyed without one, it stays so in every
      later state: no second \<^verbatim>\<open>set_value\<close>, no value after the destruction.

  Nothing here says that a pending request is completed in the end: that takes a response,
  a wake of the timeout thread while connected, or a later \<^verbatim>\<open>Close\<close>.
\<close>

theorem completion_exactly_once:
  assumes "promises_inv s0"
    and "s = request_run P evs s0"
    and "map_of (pendingRequests s) k = Some p"
  shows "pending_in s k p
    \<and> fst ` set (pendingRequests s) = fst ` set (requestDeadlines s)
    \<and> completed_with (Close s) k p (error_response k ''Transport closed'')
    \<and> pendingRequests (Close s) = [] \<and> requestDeadlines (Close s) = []
    \<and> (\<forall>now. if connected s \<and> (\<exists>d. map_of (requestDeadlines s) k = Some d \<and> d \<le> now)
              then completed_with (consumeExpired now s) k p
                     (error_response k ''Request timeout'')
              else pending_in (consumeExpired now s) k p)
    \<and> (\<forall>m. pending_in (processMessage P m s) k p
            \<or> (\<exists>r. Deserialize_response P m = Some r \<and> id_key (response_id r) = k
                   \<and> completed_with (processMessage P m s) k p r))
    \<and> (\<forall>m r. (Deserialize_request P m = None \<or> \<not> requestHandler s)
              \<and> Deserialize_response P m = Some r \<and> id_key (response_id r) = k
              \<longrightarrow> completed_with (processMessage P m s) k p r)
    \<and> (\<forall>now request.
          pending_in (snd (SendRequest P now request s)) k p
          \<or> (displaced (snd (SendRequest P now request s)) p
              \<and> map_of (pendingRequests (snd (SendRequest P now request s))) k
                  = Some (next_promise s)))
    \<and> (\<forall>now request.
          pending_in (snd (SendRequest_connected P now request s)) k p
          \<or> (displaced (snd (SendRequest_connected P now request s)) p
              \<and> map_of (pendingRequests (snd (SendRequest_connected P now request s))) k
                  = Some (next_promise s)))
    \<and> (\<forall>timeoutMs. pending_in (SetRequestTimeoutMs timeoutMs s) k p)
    \<and> (\<forall>e evs' v. fulfilled_with (request_step P e s) p v
              \<longrightarrow> fulfilled_with (request_run P evs' (request_step P e s)) p v)
    \<and> (\<forall>e evs'. displaced (request_step P e s) p
              \<longrightarrow> displaced (request_run P evs' (request_step P e s)) p)"
proof -
  have inv: "promises_inv s"
    unfolding assms(2) by (rule promises_inv_run [OF assms(1)])
  note m = assms(3)
  have c1: "pending_in s k p" by (rule pending_inI [OF inv m])
  have c2: "fst ` set (pendingRequests s) = fst ` set (requestDeadlines s)"
    using inv by (simp add: promises_inv_def)
  have c3: "completed_with (Close s) k p (error_response k ''Transport closed'')"
    by (rule Close_case [OF inv m])
  have c4: "pendingRequests (Close s) = []" "requestDeadlines (Close s) = []"
    by (simp_all add: Close_maps)
  have c5: "if connected s \<and> (\<exists>d. map_of (requestDeadlines s) k = Some d \<and> d \<le> now)
              then completed_with (consumeExpired now s) k p
                     (error_response k ''Request timeout'')
              else pending_in (consumeExpired now s) k p" for now
    by (rule consumeExpired_case [OF inv m])
  have c6: "pending_in (processMessage P msg s) k p
            \<or> (\<exists>r. Deserialize_response P msg = Some r \<and> id_key (response_id r) = k
                   \<and> completed_with (processMessage P msg s) k p r)" for msg
    by (rule processMessage_case [OF inv m])
  have c7: "(Deserialize_request P msg = None \<or> \<not> requestHandler s)
              \<and> Deserialize_response P msg = Some r \<and> id_key (response_id r) = k
              \<longrightarrow> completed_with (processMessage P msg s) k p r" for msg r
    using processMessage_matching [OF inv m, of P msg r] by blast
  have c8: "pending_in (snd (SendRequest P now request s)) k p
          \<or> (displaced (snd (SendRequest P now request s)) p
              \<and> map_of (pendingRequests (snd (SendRequest P now request s))) k
                  = Some (next_promise s))" for now request
    by (rule SendRequest_case [OF inv m])
  have c9: "pending_in (snd (SendRequest_connected P now request s)) k p
          \<or> (displaced (snd (SendRequest_connected P now request s)) p
              \<and> map_of (pendingRequests (snd (SendRequest_connected P now request s))) k
                  = Some (next_promise s))" for now request
    by (rule SendRequest_connected_case [OF inv m])
  have c10: "pending_in (SetRequestTimeoutMs timeoutMs s) k p" for timeoutMs
    using c1 by (simp add: pending_in_def SetRequestTimeoutMs_def)
  have c11: "fulfilled_with (request_step P e s) p v
              \<longrightarrow> fulfilled_with (request_run P evs' (request_step P e s)) p v" for e evs' v
    using fulfilled_stays [OF promises_inv_step [OF inv]] by blast
  have c12: "displaced (request_step P e s) p
              \<longrightarrow> displaced (request_run P evs' (request_step P e s)) p" for e evs'
    using displaced_stays [OF promises_inv_step [OF inv]] by blast
  show ?thesis
    by (intro conjI allI) (rule c1 c2 c3 c4 c5 c6 c7 c8 c9 c10 c11 c12)+
qed

lemma makeFrame_braces: "makeFrame ''{}'' = ''Content-Length: 2'' @ sep @ ''{}''"
  by (simp add: makeFrame_def to_string.simps digit_char_def char_of_def bit_0 bit_Suc)

lemma to_string_1: "to_string (Suc 0) = ''1''"
  by (simp add: to_string.simps digit_char_def char_of_def bit_0 bit_Suc)

lemma to_string_int_7: "to_string_int 7 = ''7''"
  by (simp add: to_string_int_def to_string.simps digit_char_def char_of_def bit_0 bit_Suc)

lemmas run_eval =
  request_run_def SendRequest_def SendRequest_connected_def SendRequest_disconnected_def
  generateRequestId_def enqueueFrame_def makeFrame_braces to_string_1 to_string_int_7
  processMessage_def handleResponse_def id_key_def
  consumeExpired_def expire_def Close_def signal_wakeup_def Start_def new_Impl_def
  demo_codec_def error_response_def CreateErrorObject_def find_str_def
  Let_def call_errorHandler_def request_deadline_def wrap64_def SetRequestTimeoutMs_def

text \<open>
  Three requests sent at 10, 11 and 12 ns with the default timeout of 30 s; the first has
  the id \<open>a\<close>, promise 0 and the deadline 30000000010.
\<close>

theorem completion_exactly_once_witness:
  "promises_inv (Start (new_Impl 3))
   \<and> map_of (pendingRequests (request_run demo_codec
         [Send 10 (Request (IdString ''a'') ''ping'' None),
          Send 11 (Request IdNull ''ping'' None),
          Send 12 (Request (IdInt 7) ''ping'' None)]
         (Start (new_Impl 3)))) ''a'' = Some 0
   \<and> pending_in (request_run demo_codec
         [Send 10 (Request (IdString ''a'') ''ping'' None),
          Send 11 (Request IdNull ''ping'' None),
          Send 12 (Request (IdInt 7) ''ping'' None)]
         (Start (new_Impl 3))) ''a'' 0
   \<and> completed_with (Close (request_run demo_codec
         [Send 10 (Request (IdString ''a'') ''ping'' None),
          Send 11 (Request IdNull ''ping'' None),
          Send 12 (Request (IdInt 7) ''ping'' None)]
         (Start (new_Impl 3)))) ''a'' 0 (error_response ''a'' ''Transport closed'')
   \<and> completed_with (consumeExpired 30000000010 (request_run demo_codec
         [Send 10 (Request (IdString ''a'') ''ping'' None),
          Send 11 (Request IdNull ''ping'' None),
          Send 12 (Request (IdInt 7) ''ping'' None)]
         (Start (new_Impl 3)))) ''a'' 0 (error_response ''a'' ''Request timeout'')
   \<and> pending_in (consumeExpired 30000000009 (request_run demo_codec
         [Send 10 (Request (IdString ''a'') ''ping'' None),
          Send 11 (Request IdNull ''ping'' None),
          Send 12 (Request (IdInt 7) ''ping'' None)]
         (Start (new_Impl 3)))) ''a'' 0
   \<and> completed_with (processMessage demo_codec ''R-a'' (request_run demo_codec
         [Send 10 (Request (IdString ''a'') ''ping'' None),
          Send 11 (Request IdNull ''ping'' None),
          Send 12 (Request (IdInt 7) ''ping'' None)]
         (Start (new_Impl 3)))) ''a'' 0 (Response (IdString ''a'') (Some ''pong'') None)
   \<and> fulfilled_with (request_run demo_codec [TimeoutWake 40000000000, CloseTransport]
         (request_step demo_codec (Receive ''R-a'') (request_run demo_codec
           [Send 10 (Request (IdString ''a'') ''ping'' None),
            Send 11 (Request IdNull ''ping'' None),
            Send 12 (Request (IdInt 7) ''ping'' None)]
           (Start (new_Impl 3))))) 0 (Response (IdString ''a'') (Some ''pong'') None)"
proof -
  let ?S = "request_run demo_codec
         [Send 10 (Request (IdString ''a'') ''ping'' None),
          Send 11 (Request IdNull ''ping'' None),
          Send 12 (Request (IdInt 7) ''ping'' None)]
         (Start (new_Impl 3))"
  let ?r = "Response (IdString ''a'') (Some ''pong'') None"
  have inv0: "promises_inv (Start (new_Impl 3))"
    by (simp add: promises_inv_def promise_count_def Start_def new_Impl_def)
  have hyp: "map_of (pendingRequests ?S) ''a'' = Some 0"
    by (simp add: run_eval)
  have conn: "connected ?S"
    by (simp add: run_eval)
  have dl: "map_of (requestDeadlines ?S) ''a'' = Some 30000000010"
    by (simp add: run_eval)
  note T = completion_exactly_once [OF inv0 refl hyp]
  note T3 = T [THEN conjunct2, THEN conjunct2]
  note T6 = T3 [THEN conjunct2, THEN conjunct2, THEN conjunct2]
  note T8 = T6 [THEN conjunct2, THEN conjunct2]
  note T12 = T8 [THEN conjunct2, THEN conjunct2, THEN conjunct2, THEN conjunct2]
  have t1: "pending_in ?S ''a'' 0" by (rule T [THEN conjunct1])
  have t3: "completed_with (Close ?S) ''a'' 0 (error_response ''a'' ''Transport closed'')"
    by (rule T3 [THEN conjunct1])
  from conn dl
  have yes: "connected ?S \<and> (\<exists>d. map_of (requestDeadlines ?S) ''a'' = Some d
      \<and> d \<le> 30000000010)"
    by simp
  from dl
  have no: "\<not> (connected ?S \<and> (\<exists>d. map_of (requestDeadlines ?S) ''a'' = Some d
      \<and> d \<le> 30000000009))"
    by simp
  from T6 [THEN conjunct1, THEN spec, where x = 30000000010] yes
  have t6: "completed_with (consumeExpired 30000000010 ?S) ''a'' 0
      (error_response ''a'' ''Request timeout'')"
    by (simp only: if_True)
  from T6 [THEN conjunct1, THEN spec, where x = 30000000009] no
  have t6': "pending_in (consumeExpired 30000000009 ?S) ''a'' 0"
    by (simp only: if_False)
  have prem: "(Deserialize_request demo_codec ''R-a'' = None \<or> \<not> requestHandler ?S)
      \<and> Deserialize_response demo_codec ''R-a'' = Some ?r
      \<and> id_key (response_id ?r) = ''a''"
    by (simp add: demo_codec_def id_key_def)
  have t8: "completed_with (processMessage demo_codec ''R-a'' ?S) ''a'' 0 ?r"
    by (rule T8 [THEN conjunct1, THEN spec, THEN spec, THEN mp, OF prem])
  from t8 have "fulfilled_with (request_step demo_codec (Receive ''R-a'') ?S) 0 ?r"
    by (simp only: completed_with_def request_step.simps)
  then have t12: "fulfilled_with (request_run demo_codec [TimeoutWake 40000000000, CloseTransport]
      (request_step demo_codec (Receive ''R-a'') ?S)) 0 ?r"
    by (rule T12 [THEN conjunct1, THEN spec, THEN spec, THEN spec, THEN mp])
  show ?thesis
    by (intro conjI) (rule inv0 hyp t1 t3 t6 t6' t8 t12)+
qed

text \<open>
  Claim C3 as stated fails when an id is reused while its request is pending: the second
  \<^verbatim>\<open>SendRequest\<close> assigns over the first promise, which then gets no value from a response,
  a timeout or \<^verbatim>\<open>Close\<close>.
\<close>

theorem reused_id_promise_never_completed:
  "let s = request_run demo_codec
             [Send 0 (Request (IdString ''a'') ''ping'' None),
              Send 1 (Request (IdString ''a'') ''ping'' None),
              Receive ''R-a'', TimeoutWake 40000000000, CloseTransport]
             (Start (new_Impl 3))
   in 0 < next_promise s
      \<and> count_list (map fst (set_values s)) 0 = 0
      \<and> broken_promises s = [0]
      \<and> pendingRequests s = [] \<and> requestDeadlines s = []"
  by (simp add: run_eval)

text \<open>
  With the timeout disabled (\<^verbatim>\<open>SetRequestTimeoutMs(0)\<close>) the conversion of
  \<^verbatim>\<open>milliseconds::max()\<close> to nanoseconds wraps to one millisecond less than zero: the
  deadline stored is in the past and the next wake of the timeout thread fails the request.
\<close>

lemma disabled_timeout_expires_at_once:
  "let s = request_run demo_codec
             [SetTimeout 0, Send 5000000 (Request (IdString ''a'') ''ping'' None),
              TimeoutWake 5000000]
             (Start (new_Impl 3))
   in set_values s = [(0, error_response ''a'' ''Request timeout'')]
      \<and> pendingRequests s = [] \<and> requestDeadlines s = []"
  by (simp add: run_eval)

text \<open>
  Two requests that stay pending, whatever the timeout thread does afterwards, until a later
  \<^verbatim>\<open>Close\<close>: one inserted after \<^verbatim>\<open>Close\<close> ran (it had passed the test of \<^verbatim>\<open>connected\<close>
  before), and one whose own frame overflowed the write queue, which clears \<^verbatim>\<open>connected\<close>
  so that the timeout thread leaves its loop.
\<close>

lemma late_request_stays_pending:
  "let s = request_run demo_codec
             [CloseTransport, SendLate 0 (Request (IdString ''a'') ''ping'' None),
              TimeoutWake 40000000000]
             (Start (new_Impl 3))
   in pendingRequests s = [(''a'', 0)] \<and> set_values s = [] \<and> broken_promises s = []"
  by (simp add: run_eval)

lemma overflowing_request_stays_pending:
  "let s = request_run demo_codec
             [Send 0 (Request (IdString ''a'') ''ping'' None), TimeoutWake 40000000000]
             ((Start (new_Impl 3))\<lparr>writeQueueMaxBytes := 1\<rparr>)
   in \<not> connected s \<and> pendingRequests s = [(''a'', 0)] \<and> set_values s = []
      \<and> broken_promises s = []"
  by (simp add: run_eval)

end
